theory Spec2Isabelle
  imports Main "HOL-Library.AList"
begin

section \<open>Phone-number normalization\<close>

text \<open>
  \<^verbatim>\<open>phone.replace(/\D/g, '')\<close>: without the unicode flag \<^verbatim>\<open>\D\<close> is every character
  other than the ten ASCII digits.
\<close>

definition isDigit :: "char \<Rightarrow> bool" where
  "isDigit c = (c \<in> set ''0123456789'')"

definition stripNonDigits :: "string \<Rightarrow> string" where
  "stripNonDigits phone = filter isDigit phone"

text \<open>\<^verbatim>\<open>s.slice(-n)\<close>: the last \<open>n\<close> characters, the whole string when it is shorter.\<close>

definition sliceLast :: "nat \<Rightarrow> string \<Rightarrow> string" where
  "sliceLast n s = drop (length s - n) s"

definition startsWith :: "string \<Rightarrow> string \<Rightarrow> bool" where
  "startsWith s p = (take (length p) s = p)"

definition formatPhoneNumber :: "string \<Rightarrow> string" where
  "formatPhoneNumber phone =
     (let digits = stripNonDigits phone in
      if startsWith digits ''91'' \<and> length digits = 12 then digits
      else if length digits = 10 then ''91'' @ digits
      else if length digits \<ge> 10 then ''91'' @ sliceLast 10 digits
      else digits)"


section \<open>Data model\<close>

text \<open>The status strings the service assigns to \<^verbatim>\<open>session.status\<close>.\<close>

datatype status =
    Disconnected | Restoring | Initializing | MaxAttemptsReached | QrReady | QrFailed
  | Ready | Authenticated | AuthFailed | Resetting | ManuallyDisconnected

record queued_message =
  id_msg :: string
  number :: string
  message :: string
  timestamp :: string

text \<open>
  A session object. \<open>client\<close> is the handle of the messaging client (\<open>None\<close> is
  \<^verbatim>\<open>null\<close>); times are milliseconds as \<^verbatim>\<open>Date.now()\<close> gives them; \<open>lastLinked\<close> is
  an ISO date string or \<^verbatim>\<open>null\<close>.
\<close>

record session =
  firmId :: string
  client :: "nat option"
  qrCode :: "string option"
  isReady :: bool
  status :: status
  messageQueue :: "queued_message list"
  isProcessingQueue :: bool
  lastActivity :: int
  createdAt :: int
  reconnectAttempts :: int
  maxReconnectAttempts :: int
  isPersistent :: bool
  lastLinked :: "string option"

text \<open>
  One entry of \<^verbatim>\<open>persistent-sessions.json\<close>. A \<open>createdAt_p\<close> of 0 also stands for a
  missing field: both are falsy in \<^verbatim>\<open>sessionData.createdAt || Date.now()\<close>.
\<close>

record persisted_record =
  firmId_p :: string
  isPersistent_p :: bool
  lastLinked_p :: "string option"
  createdAt_p :: int
  status_p :: status

text \<open>
  The \<^verbatim>\<open>sessions\<close> Map, in insertion order: \<^verbatim>\<open>set\<close> is \<^const>\<open>AList.update\<close> (an
  existing key keeps its place, a new key goes last), \<^verbatim>\<open>get\<close> is \<^const>\<open>map_of\<close>,
  \<^verbatim>\<open>delete\<close> is \<^const>\<open>AList.delete\<close>. Session objects are held by value. An event
  handler or timer callback, which in the source closes over the session object that
  \<^verbatim>\<open>initializeClient\<close> found under its key, is modelled as acting on the entry registered
  under that key. The two are the same object until the reaper removes the entry: nothing
  else deletes an entry, and nothing replaces one once the store has been loaded. The
  ready handler, whose save reads the Map, is given its session object explicitly.
\<close>

type_synonym registry = "(string \<times> session) list"

text \<open>Timer callbacks handed to \<^verbatim>\<open>setTimeout\<close>.\<close>

datatype timer =
    InitializeTimer string
  | ReconnectTimer string

text \<open>What the service does to the outside world, in the order it does it.\<close>

datatype effect =
    NewClient nat string
  | ClientInitialize nat
  | SendMessage nat string string
  | ClientLogout nat
  | ClientDestroy nat
  | Sleep int
  | SetTimeout timer int
  | WriteFile "(string \<times> persisted_record) list"

definition SESSION_TIMEOUT :: int where
  "SESSION_TIMEOUT = 30 * 24 * 60 * 60 * 1000"

text \<open>JavaScript truthiness of \<open>lastLinked\<close>: \<^verbatim>\<open>null\<close> and the empty string are falsy.\<close>

definition truthy :: "string option \<Rightarrow> bool" where
  "truthy v = (case v of None \<Rightarrow> False | Some s \<Rightarrow> s \<noteq> [])"

definition sessionKeyOf :: "string \<Rightarrow> string" where
  "sessionKeyOf f = ''firm_'' @ f"

text \<open>Run a session-level step on the entry registered under \<open>key\<close>, if there is one.\<close>

definition onSession ::
  "string \<Rightarrow> (session \<Rightarrow> session \<times> effect list) \<Rightarrow> registry \<Rightarrow> registry \<times> effect list" where
  "onSession key f reg =
     (case map_of reg key of
        None \<Rightarrow> (reg, [])
      | Some s \<Rightarrow> (let (s', es) = f s in (AList.update key s' reg, es)))"

section \<open>Persistence store\<close>

definition persistedRecordOf :: "session \<Rightarrow> persisted_record" where
  "persistedRecordOf s =
     \<lparr> firmId_p = firmId s, isPersistent_p = True, lastLinked_p = lastLinked s,
       createdAt_p = createdAt s, status_p = status s \<rparr>"

text \<open>
  \<^verbatim>\<open>persistedData[key] = {..}\<close> on the plain object that a save builds. Under the key
  \<^verbatim>\<open>__proto__\<close> the assignment sets the prototype of the object and defines no property;
  \<^verbatim>\<open>JSON.stringify\<close> writes own properties only, so nothing is written for a tenant of that
  name. The list holds the own properties in the order of their first assignment.
  \<^verbatim>\<open>JSON.stringify\<close> writes the integer-like keys first, in ascending order: the order of
  the entries in the file is not modelled, and a lookup by \<^const>\<open>map_of\<close> does not
  depend on it.
\<close>

definition setProperty ::
  "string \<Rightarrow> persisted_record \<Rightarrow> (string \<times> persisted_record) list \<Rightarrow> (string \<times> persisted_record) list" where
  "setProperty k v obj = (if k = ''__proto__'' then obj else AList.update k v obj)"

fun persistedData :: "registry \<Rightarrow> (string \<times> persisted_record) list \<Rightarrow> (string \<times> persisted_record) list" where
  "persistedData [] acc = acc"
| "persistedData ((sessionKey, s) # rest) acc =
     (if isPersistent s \<and> truthy (lastLinked s)
      then persistedData rest (setProperty (firmId s) (persistedRecordOf s) acc)
      else persistedData rest acc)"

definition savePersistedSessions :: "registry \<Rightarrow> effect list" where
  "savePersistedSessions reg = [WriteFile (persistedData reg [])]"

definition restoredSession :: "int \<Rightarrow> string \<Rightarrow> persisted_record \<Rightarrow> session" where
  "restoredSession now f sessionData =
     \<lparr> firmId = f, client = None, qrCode = None, isReady = False, status = Restoring,
       messageQueue = [], isProcessingQueue = False, lastActivity = now,
       createdAt = (if createdAt_p sessionData \<noteq> 0 then createdAt_p sessionData else now),
       reconnectAttempts = 0, maxReconnectAttempts = 5, isPersistent = True,
       lastLinked = lastLinked_p sessionData \<rparr>"

fun loadEntries ::
  "int \<Rightarrow> (string \<times> persisted_record) list \<Rightarrow> registry \<Rightarrow> effect list \<Rightarrow> registry \<times> effect list" where
  "loadEntries now [] reg es = (reg, es)"
| "loadEntries now ((f, sessionData) # rest) reg es =
     (if isPersistent_p sessionData \<and> truthy (lastLinked_p sessionData)
      then loadEntries now rest
             (AList.update (sessionKeyOf f) (restoredSession now f sessionData) reg)
             (es @ [SetTimeout (InitializeTimer (sessionKeyOf f)) 2000])
      else loadEntries now rest reg es)"

text \<open>\<open>None\<close> is a file that is missing or does not parse: the catch branch, nothing restored.\<close>

definition loadPersistedSessions ::
  "int \<Rightarrow> (string \<times> persisted_record) list option \<Rightarrow> registry \<Rightarrow> registry \<times> effect list" where
  "loadPersistedSessions now file reg =
     (case file of None \<Rightarrow> (reg, []) | Some entries \<Rightarrow> loadEntries now entries reg [])"

section \<open>Session registry\<close>

definition freshSession :: "int \<Rightarrow> string \<Rightarrow> session" where
  "freshSession now f =
     \<lparr> firmId = f, client = None, qrCode = None, isReady = False, status = Disconnected,
       messageQueue = [], isProcessingQueue = False, lastActivity = now, createdAt = now,
       reconnectAttempts = 0, maxReconnectAttempts = 5, isPersistent = False,
       lastLinked = None \<rparr>"

text \<open>
  The last \<open>None\<close> branch cannot run: the key has just been set when it was missing.
\<close>

definition getOrCreateSession :: "int \<Rightarrow> string \<Rightarrow> registry \<Rightarrow> session option \<times> registry" where
  "getOrCreateSession now f reg =
     (if f = [] then (None, reg)
      else
        let sessionKey = sessionKeyOf f;
            reg1 = (if map_of reg sessionKey = None
                    then AList.update sessionKey (freshSession now f) reg else reg)
        in case map_of reg1 sessionKey of
             None \<Rightarrow> (None, reg1)
           | Some s \<Rightarrow>
               (let s' = s\<lparr>lastActivity := now\<rparr>
                in (Some s', AList.update sessionKey s' reg1)))"

text \<open>
  \<^verbatim>\<open>sessionId.match(/^firm_([^_]+)_/)\<close>: the group is the longest run of characters other
  than the underscore after \<^verbatim>\<open>firm_\<close>; it must not be empty and an underscore must follow.
\<close>

definition firmMatch :: "string \<Rightarrow> string option" where
  "firmMatch sessionId =
     (if take 5 sessionId = ''firm_''
      then
        let rest = drop 5 sessionId;
            f = takeWhile (\<lambda>c. c \<noteq> CHR ''_'') rest;
            after = dropWhile (\<lambda>c. c \<noteq> CHR ''_'') rest
        in if f \<noteq> [] \<and> after \<noteq> [] then Some f else None
      else None)"

definition getSession :: "int \<Rightarrow> string \<Rightarrow> registry \<Rightarrow> session option \<times> registry" where
  "getSession now sessionId reg =
     (case firmMatch sessionId of
        None \<Rightarrow> (None, reg)
      | Some f \<Rightarrow> getOrCreateSession now f reg)"

section \<open>Message dispatcher\<close>

text \<open>
  The outcome of one \<^verbatim>\<open>await session.client.sendMessage(chatId, text)\<close>: it resolves, or it
  rejects with an error whose \<^verbatim>\<open>message\<close> is the string given.
\<close>

datatype send_result = Sent | SendError string

text \<open>
  The messaging client, as the dispatcher sees it: the outcome of the send made in loop
  iteration \<open>i\<close> through client \<open>c\<close> to \<open>chatId\<close> with the given text.
\<close>

type_synonym sender = "nat \<Rightarrow> nat \<Rightarrow> string \<Rightarrow> string \<Rightarrow> send_result"

text \<open>\<^verbatim>\<open>s.includes(p)\<close>: \<open>p\<close> occurs in \<open>s\<close> as a contiguous substring.\<close>

fun includesStr :: "string \<Rightarrow> string \<Rightarrow> bool" where
  "includesStr [] p = (p = [])"
| "includesStr (c # cs) p = (startsWith (c # cs) p \<or> includesStr cs p)"

definition isRateLimit :: "string \<Rightarrow> bool" where
  "isRateLimit msg = (includesStr msg ''rate'' \<or> includesStr msg ''limit'')"

text \<open>
  With no client, \<^verbatim>\<open>session.client.sendMessage\<close> throws this TypeError inside the
  \<^verbatim>\<open>try\<close> block before anything is sent.
\<close>

definition nullClientError :: string where
  "nullClientError =
     ''Cannot read properties of null (reading '' @ [CHR 0x27] @ ''sendMessage'' @ [CHR 0x27] @ '')''"

definition trySend :: "sender \<Rightarrow> nat \<Rightarrow> session \<Rightarrow> queued_message \<Rightarrow> send_result \<times> effect list" where
  "trySend send i s messageData =
     (let formattedNumber = formatPhoneNumber (number messageData);
          chatId = formattedNumber @ ''@c.us''
      in case client s of
           None \<Rightarrow> (SendError nullClientError, [])
         | Some c \<Rightarrow>
             (send i c chatId (message messageData),
              [SendMessage c chatId (message messageData)]))"

text \<open>
  First the drain from its guard to its end in one piece, for a drain that is left alone:
  no other handler of the service runs on the session while the drain waits for a send or
  pauses, so \<open>isReady\<close>, the client and the queue are during the loop what the loop
  itself made them. The same function with its waits, among the other handlers, follows.
\<close>

text \<open>
  How the loop is left. \<open>UncaughtTypeError\<close>: \<^verbatim>\<open>shift()\<close> on an empty queue gives
  \<^verbatim>\<open>undefined\<close>, and reading \<^verbatim>\<open>messageData.number\<close> throws in the \<^verbatim>\<open>try\<close> block and
  again in the \<^verbatim>\<open>catch\<close> block, so the function is left without resetting
  \<open>isProcessingQueue\<close>.
\<close>

datatype drain_exit = Completed | UncaughtTypeError

function drainLoop ::
  "sender \<Rightarrow> nat \<Rightarrow> nat \<Rightarrow> session \<Rightarrow> effect list \<Rightarrow> session \<times> effect list \<times> drain_exit" where
  "drainLoop send batchSize i s es =
     (if i < batchSize \<and> isReady s then
        (case messageQueue s of
           [] \<Rightarrow> (s, es, UncaughtTypeError)
         | messageData # rest \<Rightarrow>
             (let s1 = s\<lparr>messageQueue := rest\<rparr>;
                  (r, sent) = trySend send i s1 messageData
              in case r of
                   Sent \<Rightarrow> drainLoop send batchSize (Suc i) s1 (es @ sent @ [Sleep 3000])
                 | SendError msg \<Rightarrow>
                     if isRateLimit msg
                     then (s1\<lparr>messageQueue := messageData # messageQueue s1\<rparr>,
                           es @ sent @ [Sleep 10000], Completed)
                     else drainLoop send batchSize (Suc i) s1 (es @ sent)))
      else (s, es, Completed))"
  by pat_completeness auto
termination
  by (relation "measure (\<lambda>(send, batchSize, i, s, es). batchSize - i)") auto

declare drainLoop.simps [simp del]

definition drainSession :: "sender \<Rightarrow> session \<Rightarrow> session \<times> effect list" where
  "drainSession send s =
     (if isProcessingQueue s \<or> length (messageQueue s) = 0 \<or> \<not> isReady s then (s, [])
      else
        let s1 = s\<lparr>isProcessingQueue := True\<rparr>;
            batchSize = min 5 (length (messageQueue s1));
            (s2, es, ex) = drainLoop send batchSize 0 s1 []
        in case ex of
             Completed \<Rightarrow> (s2\<lparr>isProcessingQueue := False\<rparr>, es)
           | UncaughtTypeError \<Rightarrow> (s2, es))"

definition processMessageQueue :: "sender \<Rightarrow> string \<Rightarrow> registry \<Rightarrow> registry \<times> effect list" where
  "processMessageQueue send sessionKey reg = onSession sessionKey (drainSession send) reg"

text \<open>
  The same function, await by await. A call runs from the guard to the first
  \<^verbatim>\<open>await\<close> that has to wait; there the invocation is suspended, other handlers of the
  service may run on the session, and the invocation is resumed with the session as they
  left it. A suspended invocation keeps its locals: \<open>batchSize\<close>, \<open>i\<close> and, while a send
  is pending, \<open>messageData\<close>. It waits for \<^verbatim>\<open>sendMessage\<close> to settle, for the 3 second
  pause after a send, or for the 10 second pause after putting a message back (after
  which comes the \<^verbatim>\<open>break\<close>).
\<close>

datatype drain_task =
    AwaitSend nat nat queued_message
  | AwaitPace nat nat
  | AwaitCooldown

datatype drain_state = Suspended drain_task | Done drain_exit

text \<open>
  From the head of the loop with index \<open>i\<close> to the next suspension or to the end. With no
  client the call \<^verbatim>\<open>session.client.sendMessage\<close> throws at once, the \<^verbatim>\<open>catch\<close> block runs
  in the same turn and the loop goes on without waiting.
\<close>

function drainFrom ::
  "nat \<Rightarrow> nat \<Rightarrow> session \<Rightarrow> effect list \<Rightarrow> session \<times> effect list \<times> drain_state" where
  "drainFrom batchSize i s es =
     (if i < batchSize \<and> isReady s then
        (case messageQueue s of
           [] \<Rightarrow> (s, es, Done UncaughtTypeError)
         | messageData # rest \<Rightarrow>
             (let s1 = s\<lparr>messageQueue := rest\<rparr>;
                  formattedNumber = formatPhoneNumber (number messageData);
                  chatId = formattedNumber @ ''@c.us''
              in case client s1 of
                   None \<Rightarrow>
                     if isRateLimit nullClientError
                     then (s1\<lparr>messageQueue := messageData # messageQueue s1\<rparr>,
                           es @ [Sleep 10000], Suspended AwaitCooldown)
                     else drainFrom batchSize (Suc i) s1 es
                 | Some c \<Rightarrow>
                     (s1, es @ [SendMessage c chatId (message messageData)],
                      Suspended (AwaitSend batchSize i messageData))))
      else (s\<lparr>isProcessingQueue := False\<rparr>, es, Done Completed))"
  by pat_completeness auto
termination
  by (relation "measure (\<lambda>(batchSize, i, s, es). batchSize - i)") auto

declare drainFrom.simps [simp del]

text \<open>The call: the guard, the flag, the batch size, and the loop up to its first wait.\<close>

definition drainCall :: "session \<Rightarrow> session \<times> effect list \<times> drain_state" where
  "drainCall s =
     (if isProcessingQueue s \<or> length (messageQueue s) = 0 \<or> \<not> isReady s
      then (s, [], Done Completed)
      else
        let s1 = s\<lparr>isProcessingQueue := True\<rparr>;
            batchSize = min 5 (length (messageQueue s1))
        in drainFrom batchSize 0 s1 [])"

text \<open>
  A suspended invocation is resumed on the session as it is then; \<open>r\<close> is how the pending
  send settled (it is not looked at when the invocation waits for a pause to end).
\<close>

fun drainResume ::
  "drain_task \<Rightarrow> send_result \<Rightarrow> session \<Rightarrow> effect list \<Rightarrow> session \<times> effect list \<times> drain_state" where
  "drainResume (AwaitSend batchSize i messageData) r s es =
     (case r of
        Sent \<Rightarrow> (s, es @ [Sleep 3000], Suspended (AwaitPace batchSize i))
      | SendError msg \<Rightarrow>
          if isRateLimit msg
          then (s\<lparr>messageQueue := messageData # messageQueue s\<rparr>,
                es @ [Sleep 10000], Suspended AwaitCooldown)
          else drainFrom batchSize (Suc i) s es)"
| "drainResume (AwaitPace batchSize i) r s es = drainFrom batchSize (Suc i) s es"
| "drainResume AwaitCooldown r s es = (s\<lparr>isProcessingQueue := False\<rparr>, es, Done Completed)"

text \<open>\<^verbatim>\<open>session.messageQueue.push(..)\<close>, as the three send routes do for each message.\<close>

definition enqueue :: "queued_message \<Rightarrow> session \<Rightarrow> session" where
  "enqueue m s = s\<lparr>messageQueue := messageQueue s @ [m]\<rparr>"

definition clearQueue :: "session \<Rightarrow> session" where
  "clearQueue s = s\<lparr>messageQueue := []\<rparr>"

section \<open>Session state machine\<close>

definition initializeSession :: "nat \<Rightarrow> session \<Rightarrow> session \<times> effect list" where
  "initializeSession c s =
     (if client s \<noteq> None then (s, [])
      else
        let s1 = s\<lparr>status := Initializing\<rparr>;
            s2 = s1\<lparr>reconnectAttempts := reconnectAttempts s1 + 1\<rparr>
        in if reconnectAttempts s2 > maxReconnectAttempts s2
           then (s2\<lparr>status := MaxAttemptsReached\<rparr>, [])
           else (s2\<lparr>client := Some c\<rparr>,
                 [NewClient c (''./whatsapp-session-firm-'' @ firmId s2), ClientInitialize c]))"

text \<open>\<open>c\<close> is the handle of the client that \<^verbatim>\<open>new Client(..)\<close> makes if it is reached.\<close>

definition initializeClient :: "nat \<Rightarrow> string \<Rightarrow> registry \<Rightarrow> registry \<times> effect list" where
  "initializeClient c sessionKey reg = onSession sessionKey (initializeSession c) reg"

definition onQr :: "session \<Rightarrow> session" where
  "onQr s = s\<lparr>status := QrReady\<rparr>"

text \<open>The callback of \<^verbatim>\<open>QRCode.toDataURL\<close>: \<open>Some url\<close> on success, \<open>None\<close> on error.\<close>

definition onQrRendered :: "string option \<Rightarrow> session \<Rightarrow> session" where
  "onQrRendered r s = (case r of Some url \<Rightarrow> s\<lparr>qrCode := Some url\<rparr> | None \<Rightarrow> s\<lparr>status := QrFailed\<rparr>)"

text \<open>\<open>nowIso\<close> is \<^verbatim>\<open>new Date().toISOString()\<close> at the time of the event.\<close>

definition onReady :: "string \<Rightarrow> session \<Rightarrow> session" where
  "onReady nowIso s =
     s\<lparr>isReady := True, status := Ready, qrCode := None, reconnectAttempts := 0,
       isPersistent := True, lastLinked := Some nowIso\<rparr>"

text \<open>
  The ready handler with the save it ends with. \<open>session\<close> is the object the handler
  closes over, as it is when the event arrives. The handler assigns to that object and
  the save then reads the Map: the assignments show in the Map when the object is still
  registered under \<open>sessionKey\<close>. If the reaper has removed it, the Map has no entry under
  the key, or another session object created later (with a later \<open>createdAt\<close>), and is
  left as it is; the test for ``still registered'' is therefore equality with the entry.
\<close>

definition clientReady ::
  "string \<Rightarrow> string \<Rightarrow> session \<Rightarrow> registry \<Rightarrow> session \<times> registry \<times> effect list" where
  "clientReady nowIso sessionKey session reg =
     (let session' = onReady nowIso session;
          reg' = (if map_of reg sessionKey = Some session
                  then AList.update sessionKey session' reg else reg)
      in (session', reg', savePersistedSessions reg'))"

definition onAuthenticated :: "session \<Rightarrow> session" where
  "onAuthenticated s = s\<lparr>status := Authenticated\<rparr>"

definition onAuthFailure :: "session \<Rightarrow> session" where
  "onAuthFailure s = s\<lparr>status := AuthFailed, qrCode := None\<rparr>"

definition onDisconnected :: "string \<Rightarrow> string \<Rightarrow> session \<Rightarrow> session \<times> effect list" where
  "onDisconnected sessionKey reason s =
     (let s1 = s\<lparr>isReady := False, status := Disconnected, qrCode := None\<rparr>
      in if isPersistent s1 \<and> status s1 \<noteq> ManuallyDisconnected
         then (s1, [SetTimeout (ReconnectTimer sessionKey)
                      (min 60000 (10000 * reconnectAttempts s1))])
         else if \<not> isPersistent s1 \<and> reason \<noteq> ''NAVIGATION'' \<and> reason \<noteq> ''LOGOUT''
         then (s1, [SetTimeout (ReconnectTimer sessionKey)
                      (min 30000 (5000 * reconnectAttempts s1))])
         else (s1, []))"

definition fireTimer :: "nat \<Rightarrow> timer \<Rightarrow> registry \<Rightarrow> registry \<times> effect list" where
  "fireTimer c t reg =
     (case t of
        InitializeTimer sessionKey \<Rightarrow> initializeClient c sessionKey reg
      | ReconnectTimer sessionKey \<Rightarrow>
          (case map_of reg sessionKey of
             None \<Rightarrow> (reg, [])
           | Some s \<Rightarrow>
               if status s \<noteq> ManuallyDisconnected then initializeClient c sessionKey reg
               else (reg, [])))"

section \<open>Heartbeat and reaper\<close>

definition heartbeat :: "int \<Rightarrow> session \<Rightarrow> session" where
  "heartbeat now s = (if isReady s \<and> client s \<noteq> None then s\<lparr>lastActivity := now\<rparr> else s)"

definition sessionHeartbeat :: "int \<Rightarrow> registry \<Rightarrow> registry" where
  "sessionHeartbeat now reg = map (\<lambda>(sessionKey, s). (sessionKey, heartbeat now s)) reg"

text \<open>
  The two nested conditions of the sweep under which \<^verbatim>\<open>sessions.delete(sessionKey)\<close> runs.
\<close>

definition evicts :: "int \<Rightarrow> session \<Rightarrow> bool" where
  "evicts now s =
     (let isOld = now - lastActivity s > SESSION_TIMEOUT;
          isVeryStale = now - createdAt s > SESSION_TIMEOUT * 3
      in if isPersistent s
         then (if isVeryStale \<and> \<not> isReady s \<and> status s = Disconnected then True else False)
         else (if isOld \<or> isVeryStale then True else False))"

text \<open>
  A \<^verbatim>\<open>destroy()\<close> that throws is caught and logged, and the session is deleted all the same.
\<close>

definition destroyClient :: "session \<Rightarrow> effect list" where
  "destroyClient s = (case client s of None \<Rightarrow> [] | Some c \<Rightarrow> [ClientDestroy c])"

fun cleanupLoop ::
  "int \<Rightarrow> (string \<times> session) list \<Rightarrow> registry \<Rightarrow> effect list \<Rightarrow> nat \<Rightarrow> registry \<times> effect list \<times> nat" where
  "cleanupLoop now [] reg es cleanedCount = (reg, es, cleanedCount)"
| "cleanupLoop now ((sessionKey, s) # rest) reg es cleanedCount =
     (if evicts now s
      then cleanupLoop now rest (AList.delete sessionKey reg) (es @ destroyClient s)
             (Suc cleanedCount)
      else cleanupLoop now rest reg es cleanedCount)"

definition cleanupOldSessions :: "int \<Rightarrow> registry \<Rightarrow> registry \<times> effect list" where
  "cleanupOldSessions now reg =
     (let (reg', es, cleanedCount) = cleanupLoop now reg reg [] 0
      in (reg', es @ (if cleanedCount > 0 then savePersistedSessions reg' else [])))"

section \<open>Reset and permanent disconnect\<close>

text \<open>
  \<open>throws\<close> says which calls on the client throw synchronously; the \<^verbatim>\<open>try\<close> block is left
  at the first one that does, before \<^verbatim>\<open>session.client = null\<close>.
\<close>

definition resetSession :: "(effect \<Rightarrow> bool) \<Rightarrow> session \<Rightarrow> session \<times> effect list" where
  "resetSession throws s =
     (let s1 = s\<lparr>qrCode := None, isReady := False, status := Resetting, messageQueue := []\<rparr>;
          (s2, es) =
            (case client s1 of
               None \<Rightarrow> (s1, [])
             | Some c \<Rightarrow>
                 if throws (ClientDestroy c) then (s1, [ClientDestroy c])
                 else (s1\<lparr>client := None\<rparr>, [ClientDestroy c]))
      in (s2, es @ [SetTimeout (InitializeTimer (sessionKeyOf (firmId s2))) 2000]))"

definition disconnectSession :: "(effect \<Rightarrow> bool) \<Rightarrow> session \<Rightarrow> session \<times> effect list" where
  "disconnectSession throws s =
     (let s1 = s\<lparr>qrCode := None, isReady := False, status := ManuallyDisconnected,
                 messageQueue := [], isPersistent := False, lastLinked := None\<rparr>
      in case client s1 of
           None \<Rightarrow> (s1, [])
         | Some c \<Rightarrow>
             if throws (ClientLogout c) then (s1, [ClientLogout c])
             else if throws (ClientDestroy c) then (s1, [ClientLogout c, ClientDestroy c])
             else (s1\<lparr>client := None\<rparr>, [ClientLogout c, ClientDestroy c]))"

text \<open>
  The routes \<^verbatim>\<open>POST /api/reset/:sessionId\<close> and \<^verbatim>\<open>POST /api/disconnect/:sessionId\<close>.
  \<^verbatim>\<open>getSession\<close> is written out (the match, then \<^verbatim>\<open>getOrCreateSession\<close>) to have at
  hand the key under which the session object it returns is registered.
\<close>

definition apiReset ::
  "int \<Rightarrow> (effect \<Rightarrow> bool) \<Rightarrow> string \<Rightarrow> registry \<Rightarrow> registry \<times> effect list" where
  "apiReset now throws sessionId reg =
     (case firmMatch sessionId of
        None \<Rightarrow> (reg, [])
      | Some f \<Rightarrow>
          (case getOrCreateSession now f reg of
             (None, reg1) \<Rightarrow> (reg1, [])
           | (Some s, reg1) \<Rightarrow>
               (let (s', es) = resetSession throws s
                in (AList.update (sessionKeyOf f) s' reg1, es))))"

definition apiDisconnect ::
  "int \<Rightarrow> (effect \<Rightarrow> bool) \<Rightarrow> string \<Rightarrow> registry \<Rightarrow> registry \<times> effect list" where
  "apiDisconnect now throws sessionId reg =
     (case firmMatch sessionId of
        None \<Rightarrow> (reg, [])
      | Some f \<Rightarrow>
          (case getOrCreateSession now f reg of
             (None, reg1) \<Rightarrow> (reg1, [])
           | (Some s, reg1) \<Rightarrow>
               (let (s', es) = disconnectSession throws s;
                    reg2 = AList.update (sessionKeyOf f) s' reg1
                in (reg2, es @ savePersistedSessions reg2))))"

section \<open>Histories of one session\<close>

text \<open>
  Everything in the service that assigns to a field of a registered session: the five
  client events (the QR event in its two halves), \<^verbatim>\<open>getOrCreateSession\<close> on an existing
  session, the heartbeat, \<^verbatim>\<open>initializeClient\<close>, a drain, the enqueueing and queue-clearing
  routes, reset and permanent disconnect.
\<close>

datatype operation =
    OpTouch int
  | OpHeartbeat int
  | OpInitialize nat
  | OpQr
  | OpQrRendered "string option"
  | OpReady string
  | OpAuthenticated
  | OpAuthFailure
  | OpDisconnected string
  | OpDrain sender
  | OpEnqueue queued_message
  | OpClearQueue
  | OpReset "effect \<Rightarrow> bool"
  | OpDisconnectPermanently "effect \<Rightarrow> bool"

fun applyOp :: "operation \<Rightarrow> session \<Rightarrow> session" where
  "applyOp (OpTouch now) s = s\<lparr>lastActivity := now\<rparr>"
| "applyOp (OpHeartbeat now) s = heartbeat now s"
| "applyOp (OpInitialize c) s = fst (initializeSession c s)"
| "applyOp OpQr s = onQr s"
| "applyOp (OpQrRendered r) s = onQrRendered r s"
| "applyOp (OpReady nowIso) s = onReady nowIso s"
| "applyOp OpAuthenticated s = onAuthenticated s"
| "applyOp OpAuthFailure s = onAuthFailure s"
| "applyOp (OpDisconnected reason) s = fst (onDisconnected (sessionKeyOf (firmId s)) reason s)"
| "applyOp (OpDrain send) s = fst (drainSession send s)"
| "applyOp (OpEnqueue m) s = enqueue m s"
| "applyOp OpClearQueue s = clearQueue s"
| "applyOp (OpReset throws) s = fst (resetSession throws s)"
| "applyOp (OpDisconnectPermanently throws) s = fst (disconnectSession throws s)"

fun applyOps :: "operation list \<Rightarrow> session \<Rightarrow> session" where
  "applyOps [] s = s"
| "applyOps (op # ops) s = applyOps ops (applyOp op s)"

definition isPermanentDisconnect :: "operation \<Rightarrow> bool" where
  "isPermanentDisconnect op = (case op of OpDisconnectPermanently throws \<Rightarrow> True | _ \<Rightarrow> False)"

definition isReadyEvent :: "operation \<Rightarrow> bool" where
  "isReadyEvent op = (case op of OpReady nowIso \<Rightarrow> True | _ \<Rightarrow> False)"

section \<open>A drain among the other handlers\<close>

text \<open>
  One drain invocation from a given point to its end or as far as the schedule goes.
  Each entry of the schedule is one resumption: the operations that other handlers
  performed on the session while the invocation was waiting, and the outcome of the
  pending send.
\<close>

fun drainRun ::
  "(operation list \<times> send_result) list \<Rightarrow> session \<times> effect list \<times> drain_state
     \<Rightarrow> session \<times> effect list \<times> drain_state" where
  "drainRun [] cfg = cfg"
| "drainRun ((ops, r) # sched) (s, es, st) =
     (case st of
        Suspended task \<Rightarrow> drainRun sched (drainResume task r (applyOps ops s) es)
      | Done ex \<Rightarrow> (s, es, Done ex))"

text \<open>
  An invocation that is left alone: nothing else touches the session while it waits, and
  each send settles as the client \<open>send\<close> says. \<open>n\<close> bounds the number of resumptions.
\<close>

fun drainAlone ::
  "sender \<Rightarrow> nat \<Rightarrow> session \<times> effect list \<times> drain_state \<Rightarrow> session \<times> effect list \<times> drain_state" where
  "drainAlone send 0 cfg = cfg"
| "drainAlone send (Suc n) (s, es, st) =
     (case st of
        Suspended task \<Rightarrow>
          drainAlone send n
            (drainResume task
               (case task of AwaitSend batchSize i messageData \<Rightarrow> fst (trySend send i s messageData)
                | _ \<Rightarrow> Sent)
               s es)
      | Done ex \<Rightarrow> (s, es, Done ex))"

section \<open>A session across restarts of the service\<close>

text \<open>
  The life of one session, from its creation by \<^verbatim>\<open>getOrCreateSession\<close> on: the operations
  on it, the saves, and restarts of the process. The second component is what the store
  holds for the tenant. The ready handler and the disconnect route save at once; the
  timer set by \<^verbatim>\<open>setInterval(savePersistedSessions, ..)\<close> and a sweep that removed another
  session save at any time. A restart loses the Map and runs \<^verbatim>\<open>loadPersistedSessions\<close> on
  the store: the session is then what the load registers under the tenant's key, if
  anything. The sessions of other tenants are left out: they do not change what a save
  writes for this tenant, nor what a load registers for it.
\<close>

datatype life_step = Handle operation | PeriodicSave | Restart int

definition savesAfter :: "operation \<Rightarrow> bool" where
  "savesAfter op = (isReadyEvent op \<or> isPermanentDisconnect op)"

fun lifeStep ::
  "life_step \<Rightarrow> session option \<times> (string \<times> persisted_record) list
     \<Rightarrow> session option \<times> (string \<times> persisted_record) list" where
  "lifeStep step (None, file) = (None, file)"
| "lifeStep (Handle op) (Some s, file) =
     (let s' = applyOp op s
      in (Some s',
          if savesAfter op then persistedData [(sessionKeyOf (firmId s'), s')] [] else file))"
| "lifeStep PeriodicSave (Some s, file) =
     (Some s, persistedData [(sessionKeyOf (firmId s), s)] [])"
| "lifeStep (Restart now) (Some s, file) =
     (map_of (fst (loadPersistedSessions now (Some file) [])) (sessionKeyOf (firmId s)), file)"

fun lifeRun ::
  "life_step list \<Rightarrow> session option \<times> (string \<times> persisted_record) list
     \<Rightarrow> session option \<times> (string \<times> persisted_record) list" where
  "lifeRun [] w = w"
| "lifeRun (step # steps) w = lifeRun steps (lifeStep step w)"

text \<open>The operations among the steps, in order: the events observed on the session.\<close>

definition handled :: "life_step list \<Rightarrow> operation list" where
  "handled steps = concat (map (\<lambda>step. case step of Handle op \<Rightarrow> [op] | _ \<Rightarrow> []) steps)"

section \<open>Example histories\<close>


section \<open>Notions and examples the properties are stated with\<close>

text \<open>
  A registry as the service builds it: the keys of a Map are distinct, and every session
  is registered under \<^verbatim>\<open>firm_\<close> followed by its own tenant identifier.
\<close>

definition registryOk :: "registry \<Rightarrow> bool" where
  "registryOk reg =
     (distinct (map fst reg) \<and> list_all (\<lambda>(sessionKey, s). sessionKey = sessionKeyOf (firmId s)) reg)"

text \<open>The delays of the timers set by a run of effects.\<close>

definition scheduledDelays :: "effect list \<Rightarrow> int list" where
  "scheduledDelays es = concat (map (\<lambda>e. case e of SetTimeout t d \<Rightarrow> [d] | _ \<Rightarrow> []) es)"

text \<open>
  Following the specification's words, ``a ready event has been observed since the last
  permanent disconnect'': going back through the history, a ready event is met before any
  permanent disconnect.
\<close>

definition readySinceLastDisconnect :: "operation list \<Rightarrow> bool" where
  "readySinceLastDisconnect ops =
     (case dropWhile (\<lambda>op. \<not> isReadyEvent op \<and> \<not> isPermanentDisconnect op) (rev ops) of
        [] \<Rightarrow> False
      | op # earlier \<Rightarrow> isReadyEvent op)"

text \<open>
  The store agrees with a session: it holds a record for the tenant, and one that a load
  accepts, exactly when a save of the session writes one; it holds nothing else.
\<close>

definition storeAgrees :: "session \<Rightarrow> (string \<times> persisted_record) list \<Rightarrow> bool" where
  "storeAgrees s file =
     (if isPersistent s \<and> truthy (lastLinked s) \<and> firmId s \<noteq> ''__proto__''
      then length file = 1 \<and> fst (hd file) = firmId s
           \<and> isPersistent_p (snd (hd file)) \<and> truthy (lastLinked_p (snd (hd file)))
      else file = [])"

text \<open>A record as a save writes it, found in the store at startup.\<close>

definition restoredExample :: persisted_record where
  "restoredExample =
     \<lparr> firmId_p = ''a'', isPersistent_p = True, lastLinked_p = Some ''2025-01-01T00:00:00.000Z'',
       createdAt_p = 1000, status_p = Ready \<rparr>"

text \<open>
  A session that has been linked and is ready, and one that was linked and then lost its
  connection.
\<close>

definition linkedSession :: session where
  "linkedSession =
     applyOps [OpInitialize 1, OpReady ''2025-01-01T00:00:00.000Z''] (freshSession 0 ''a'')"

definition droppedSession :: session where
  "droppedSession =
     applyOps [OpInitialize 2, OpReady ''2025-01-01T00:00:00.000Z'', OpDisconnected ''CONFLICT'']
       (freshSession 0 ''b'')"

text \<open>
  What a drain is expected to do, to compare the loop with: the call made on the client
  for one message; whether the attempt made for it in iteration \<open>i\<close> fails with an error
  classified as rate limiting; and the effects of attempting a run of messages none of
  which is rate limited (a pause of 3 seconds after each one sent, none after a failure).
\<close>

definition sendAttempt :: "session \<Rightarrow> queued_message \<Rightarrow> effect list" where
  "sendAttempt s m =
     (case client s of
        None \<Rightarrow> []
      | Some c \<Rightarrow> [SendMessage c (formatPhoneNumber (number m) @ ''@c.us'') (message m)])"

definition rateLimited :: "sender \<Rightarrow> nat \<Rightarrow> session \<Rightarrow> queued_message \<Rightarrow> bool" where
  "rateLimited send i s m =
     (case fst (trySend send i s m) of Sent \<Rightarrow> False | SendError e \<Rightarrow> isRateLimit e)"

fun attempts :: "sender \<Rightarrow> nat \<Rightarrow> session \<Rightarrow> queued_message list \<Rightarrow> effect list" where
  "attempts send i s [] = []"
| "attempts send i s (m # ms) =
     sendAttempt s m
       @ (case fst (trySend send i s m) of Sent \<Rightarrow> [Sleep 3000] | SendError e \<Rightarrow> [])
       @ attempts send (Suc i) s ms"

definition isSendMessage :: "effect \<Rightarrow> bool" where
  "isSendMessage e = (case e of SendMessage c chatId text \<Rightarrow> True | _ \<Rightarrow> False)"

text \<open>
  The number of sends among a run of effects, and what holds of a drain invocation at
  every point: while it is suspended the session's \<open>isProcessingQueue\<close> flag is set, the
  batch size is at most 5, the index is within the batch, and no more sends have been
  made than the index allows; of a finished invocation, that it made at most five sends.
\<close>

definition sends :: "effect list \<Rightarrow> nat" where
  "sends es = length (filter isSendMessage es)"

fun inBatch :: "session \<times> effect list \<times> drain_state \<Rightarrow> bool" where
  "inBatch (s, es, Suspended (AwaitSend batchSize i messageData))
     = (isProcessingQueue s \<and> batchSize \<le> 5 \<and> i < batchSize \<and> sends es \<le> Suc i)"
| "inBatch (s, es, Suspended (AwaitPace batchSize i))
     = (isProcessingQueue s \<and> batchSize \<le> 5 \<and> i < batchSize \<and> sends es \<le> Suc i)"
| "inBatch (s, es, Suspended AwaitCooldown) = (isProcessingQueue s \<and> sends es \<le> 5)"
| "inBatch (s, es, Done ex) = (sends es \<le> 5)"

text \<open>
  Messages and sessions for the dispatcher: a linked session with seven messages queued;
  the same session once a drain has been called on it and waits for its first send; a
  session on which an authenticated event follows the ready event; a client that sends
  everything, and one whose second send fails and whose third is rate limited.
\<close>

definition exampleMessage :: "string \<Rightarrow> queued_message" where
  "exampleMessage d =
     \<lparr> id_msg = ''m'' @ d, number = ''+91 98765 4321'' @ d, message = ''hello '' @ d,
       timestamp = ''2025-01-01T00:00:00.000Z'' \<rparr>"

definition backlogSession :: session where
  "backlogSession =
     applyOps (map (\<lambda>d. OpEnqueue (exampleMessage d))
                 [''1'', ''2'', ''3'', ''4'', ''5'', ''6'', ''7''])
       linkedSession"

definition inFlightSession :: session where
  "inFlightSession = fst (drainCall backlogSession)"

definition authenticatedAgain :: session where
  "authenticatedAgain =
     applyOps [OpInitialize 1, OpReady ''2025-01-01T00:00:00.000Z'', OpAuthenticated,
               OpEnqueue (exampleMessage ''1'')]
       (freshSession 0 ''a'')"

definition alwaysSent :: sender where
  "alwaysSent i c chatId text = Sent"

definition thirdRateLimited :: sender where
  "thirdRateLimited i c chatId text =
     (if i = 1 then SendError ''Evaluation failed: chat not found''
      else if i = 2 then SendError ''Too many requests: rate-overlimit''
      else Sent)"

section \<open>Phone-number normalization: properties\<close>

lemma sliceLast_length: "n \<le> length s \<Longrightarrow> length (sliceLast n s) = n"
  by (simp add: sliceLast_def)

text \<open>
  Claim C9. Normalization strips every non-digit character and then: a 12-digit string
  that starts with 91 is returned unchanged; a 10-digit string gets 91 in front; a longer
  string keeps its last 10 digits behind 91 (which for the 12-digit case with prefix 91
  is the string itself). The three examples of the specification evaluate as stated.
\<close>

theorem formatPhoneNumber_normalizes:
  "(startsWith (stripNonDigits phone) ''91'' \<and> length (stripNonDigits phone) = 12
      \<longrightarrow> formatPhoneNumber phone = stripNonDigits phone)
   \<and> (length (stripNonDigits phone) = 10
      \<longrightarrow> formatPhoneNumber phone = ''91'' @ stripNonDigits phone)
   \<and> (length (stripNonDigits phone) > 10
      \<longrightarrow> formatPhoneNumber phone
            = ''91'' @ drop (length (stripNonDigits phone) - 10) (stripNonDigits phone)
          \<and> length (formatPhoneNumber phone) = 12)
   \<and> stripNonDigits phone = filter (\<lambda>c. c \<in> set ''0123456789'') phone
   \<and> formatPhoneNumber ''9876543210'' = ''919876543210''
   \<and> formatPhoneNumber ''919876543210'' = ''919876543210''
   \<and> formatPhoneNumber ''+91-98765-43210'' = ''919876543210''"
proof -
  let ?d = "stripNonDigits phone"
  have a: "startsWith ?d ''91'' \<and> length ?d = 12 \<longrightarrow> formatPhoneNumber phone = ?d"
    by (simp add: formatPhoneNumber_def Let_def)
  have b: "length ?d = 10 \<longrightarrow> formatPhoneNumber phone = ''91'' @ ?d"
    by (simp add: formatPhoneNumber_def Let_def)
  have c: "length ?d > 10 \<longrightarrow> formatPhoneNumber phone = ''91'' @ drop (length ?d - 10) ?d
      \<and> length (formatPhoneNumber phone) = 12"
  proof
    assume len: "length ?d > 10"
    show "formatPhoneNumber phone = ''91'' @ drop (length ?d - 10) ?d
      \<and> length (formatPhoneNumber phone) = 12"
    proof (cases "startsWith ?d ''91'' \<and> length ?d = 12")
      case True
      then have tk: "take (Suc (Suc 0)) ?d = ''91''" and l12: "length ?d = 12"
        by (simp_all add: startsWith_def)
      have "take (Suc (Suc 0)) ?d @ drop (Suc (Suc 0)) ?d = ?d"
        by (rule append_take_drop_id)
      with tk have "''91'' @ drop (Suc (Suc 0)) ?d = ?d" by simp
      moreover from l12 have "length ?d - 10 = Suc (Suc 0)" by simp
      ultimately have "''91'' @ drop (length ?d - 10) ?d = ?d" by simp
      with True l12 show ?thesis by (simp add: formatPhoneNumber_def Let_def)
    next
      case False
      with len show ?thesis
        by (auto simp add: formatPhoneNumber_def Let_def sliceLast_def)
    qed
  qed
  have d: "?d = filter (\<lambda>c. c \<in> set ''0123456789'') phone"
    unfolding stripNonDigits_def isDigit_def ..
  have e1: "formatPhoneNumber ''9876543210'' = ''919876543210''"
    by (simp add: formatPhoneNumber_def stripNonDigits_def isDigit_def startsWith_def Let_def)
  have e2: "formatPhoneNumber ''919876543210'' = ''919876543210''"
    by (simp add: formatPhoneNumber_def stripNonDigits_def isDigit_def startsWith_def Let_def)
  have e3: "formatPhoneNumber ''+91-98765-43210'' = ''919876543210''"
    by (simp add: formatPhoneNumber_def stripNonDigits_def isDigit_def startsWith_def Let_def)
  from a b c d e1 e2 e3 show ?thesis by blast
qed

theorem formatPhoneNumber_normalizes_witness:
  "length (stripNonDigits ''0 98765 43210'') > 10
   \<and> formatPhoneNumber ''0 98765 43210'' = ''919876543210''
   \<and> startsWith (stripNonDigits ''91 98765 43210'') ''91''
   \<and> length (stripNonDigits ''91 98765 43210'') = 12
   \<and> formatPhoneNumber ''91 98765 43210'' = ''919876543210''
   \<and> length (stripNonDigits ''(98765) 43210'') = 10
   \<and> formatPhoneNumber ''(98765) 43210'' = ''919876543210''"
  using formatPhoneNumber_normalizes [of "''0 98765 43210''"]
    formatPhoneNumber_normalizes [of "''91 98765 43210''"]
    formatPhoneNumber_normalizes [of "''(98765) 43210''"]
  by (simp add: stripNonDigits_def isDigit_def startsWith_def)

text \<open>
  Claim C10. When fewer than 10 digits are left after stripping (none at all included),
  the result is the stripped digit string, with no prefix; so the result does not always
  have the international length 12.
\<close>

theorem formatPhoneNumber_short:
  "length (stripNonDigits phone) < 10 \<Longrightarrow>
     formatPhoneNumber phone = stripNonDigits phone
     \<and> length (formatPhoneNumber phone) < 12
     \<and> \<not> (\<forall>p. length (formatPhoneNumber p) = 12)"
proof -
  assume short: "length (stripNonDigits phone) < 10"
  then have eq: "formatPhoneNumber phone = stripNonDigits phone"
    by (simp add: formatPhoneNumber_def Let_def)
  have "length (formatPhoneNumber []) \<noteq> 12"
    by (simp add: formatPhoneNumber_def stripNonDigits_def Let_def startsWith_def)
  then have "\<not> (\<forall>p. length (formatPhoneNumber p) = 12)" by blast
  with eq short show ?thesis by simp
qed

theorem formatPhoneNumber_short_witness:
  "length (stripNonDigits ''98-765'') < 10
   \<and> formatPhoneNumber ''98-765'' = ''98765''
   \<and> length (stripNonDigits '''') < 10
   \<and> formatPhoneNumber '''' = ''''"
  using formatPhoneNumber_short [of "''98-765''"] formatPhoneNumber_short [of "''''"]
  by (simp add: stripNonDigits_def isDigit_def)


section \<open>Client initialization\<close>






section \<open>The drain loop, one iteration at a time\<close>

lemma drainLoop_stop:
  "\<not> (i < bs \<and> isReady s) \<Longrightarrow> drainLoop send bs i s es = (s, es, Completed)"
proof -
  assume a: "\<not> (i < bs \<and> isReady s)"
  show ?thesis by (subst drainLoop.simps) (simp only: a if_False)
qed

lemma drainLoop_empty:
  "i < bs \<Longrightarrow> isReady s \<Longrightarrow> messageQueue s = [] \<Longrightarrow>
   drainLoop send bs i s es = (s, es, UncaughtTypeError)"
  by (simp add: drainLoop.simps)

lemma drainLoop_sent:
  "i < bs \<Longrightarrow> isReady s \<Longrightarrow> messageQueue s = m # rest \<Longrightarrow>
   trySend send i (s\<lparr>messageQueue := rest\<rparr>) m = (Sent, sent) \<Longrightarrow>
   drainLoop send bs i s es
     = drainLoop send bs (Suc i) (s\<lparr>messageQueue := rest\<rparr>) (es @ sent @ [Sleep 3000])"
  by (subst drainLoop.simps) (simp add: Let_def)

lemma drainLoop_rate_limited:
  "i < bs \<Longrightarrow> isReady s \<Longrightarrow> messageQueue s = m # rest \<Longrightarrow>
   trySend send i (s\<lparr>messageQueue := rest\<rparr>) m = (SendError e, sent) \<Longrightarrow> isRateLimit e \<Longrightarrow>
   drainLoop send bs i s es = (s, es @ sent @ [Sleep 10000], Completed)"
proof -
  assume a: "i < bs" "isReady s" "messageQueue s = m # rest"
    "trySend send i (s\<lparr>messageQueue := rest\<rparr>) m = (SendError e, sent)" "isRateLimit e"
  from a(3) have "s\<lparr>messageQueue := m # rest\<rparr> = s" by simp
  with a show ?thesis by (subst drainLoop.simps) (simp add: Let_def)
qed

lemma drainLoop_dropped:
  "i < bs \<Longrightarrow> isReady s \<Longrightarrow> messageQueue s = m # rest \<Longrightarrow>
   trySend send i (s\<lparr>messageQueue := rest\<rparr>) m = (SendError e, sent) \<Longrightarrow> \<not> isRateLimit e \<Longrightarrow>
   drainLoop send bs i s es
     = drainLoop send bs (Suc i) (s\<lparr>messageQueue := rest\<rparr>) (es @ sent)"
  by (subst drainLoop.simps) (simp add: Let_def)

lemma drainLoop_frame:
  "drainLoop send bs i s es = (s', es', ex) \<Longrightarrow> s' = s\<lparr>messageQueue := messageQueue s'\<rparr>"
proof (induction "bs - i" arbitrary: i s es)
  case 0
  then have "\<not> (i < bs \<and> isReady s)" by simp
  from drainLoop_stop [OF this] "0.prems" show ?case by simp
next
  case (Suc n)
  show ?case
  proof (cases "i < bs \<and> isReady s")
    case False
    from drainLoop_stop [OF this] Suc.prems show ?thesis by simp
  next
    case True
    then have lt: "i < bs" and rdy: "isReady s" by simp_all
    show ?thesis
    proof (cases "messageQueue s")
      case Nil
      from drainLoop_empty [OF lt rdy Nil] Suc.prems show ?thesis by simp
    next
      case (Cons m rest)
      let ?s1 = "s\<lparr>messageQueue := rest\<rparr>"
      obtain r sent where ts: "trySend send i ?s1 m = (r, sent)" by (cases "trySend send i ?s1 m")
      from Suc.hyps(2) lt have n: "n = bs - Suc i" by simp
      have rdy1: "isReady ?s1" using rdy by simp
      show ?thesis
      proof (cases r)
        case Sent
        with drainLoop_sent [OF lt rdy Cons] ts Suc.prems
        have "drainLoop send bs (Suc i) ?s1 (es @ sent @ [Sleep 3000]) = (s', es', ex)" by simp
        from Suc.hyps(1) [OF n this] show ?thesis by simp
      next
        case (SendError e)
        show ?thesis
        proof (cases "isRateLimit e")
          case True
          with drainLoop_rate_limited [OF lt rdy Cons] ts SendError Suc.prems
          show ?thesis by simp
        next
          case False
          with drainLoop_dropped [OF lt rdy Cons] ts SendError Suc.prems
          have "drainLoop send bs (Suc i) ?s1 (es @ sent) = (s', es', ex)" by simp
          from Suc.hyps(1) [OF n this] show ?thesis by simp
        qed
      qed
    qed
  qed
qed

lemma drainSession_frame:
  "fst (drainSession send s) = s\<lparr>messageQueue := messageQueue (fst (drainSession send s)),
       isProcessingQueue := isProcessingQueue (fst (drainSession send s))\<rparr>"
proof (cases "isProcessingQueue s \<or> length (messageQueue s) = 0 \<or> \<not> isReady s")
  case True
  then show ?thesis by (simp add: drainSession_def)
next
  case False
  let ?s1 = "s\<lparr>isProcessingQueue := True\<rparr>"
  obtain s2 es ex where dl: "drainLoop send (min 5 (length (messageQueue ?s1))) 0 ?s1 [] = (s2, es, ex)"
    by (cases "drainLoop send (min 5 (length (messageQueue ?s1))) 0 ?s1 []")
  from drainLoop_frame [OF dl] have fr: "s2 = ?s1\<lparr>messageQueue := messageQueue s2\<rparr>" .
  from False dl have "fst (drainSession send s)
      = (case ex of Completed \<Rightarrow> s2\<lparr>isProcessingQueue := False\<rparr> | UncaughtTypeError \<Rightarrow> s2)"
    by (simp add: drainSession_def Let_def split: drain_exit.split)
  moreover have "s2\<lparr>isProcessingQueue := False\<rparr>
      = s\<lparr>messageQueue := messageQueue s2, isProcessingQueue := False\<rparr>"
    by (subst fr) simp
  moreover have "s2 = s\<lparr>messageQueue := messageQueue s2, isProcessingQueue := True\<rparr>"
    by (subst fr) simp
  ultimately have "fst (drainSession send s)
      = s\<lparr>messageQueue := messageQueue s2,
           isProcessingQueue := (case ex of Completed \<Rightarrow> False | UncaughtTypeError \<Rightarrow> True)\<rparr>"
    by (cases ex) simp_all
  then show ?thesis by simp
qed

lemma drainSession_fields:
  "isPersistent (fst (drainSession send s)) = isPersistent s"
  "status (fst (drainSession send s)) = status s"
  "isReady (fst (drainSession send s)) = isReady s"
  "client (fst (drainSession send s)) = client s"
  "reconnectAttempts (fst (drainSession send s)) = reconnectAttempts s"
  "lastLinked (fst (drainSession send s)) = lastLinked s"
  "firmId (fst (drainSession send s)) = firmId s"
  by (subst drainSession_frame, simp)+

section \<open>Histories: what every operation keeps\<close>

lemma applyOp_isPersistent:
  "isPersistent (applyOp op s)
     = (if isReadyEvent op then True else if isPermanentDisconnect op then False else isPersistent s)"
  by (cases op)
    (simp_all add: isReadyEvent_def isPermanentDisconnect_def heartbeat_def initializeSession_def
      onQr_def onQrRendered_def onReady_def onAuthenticated_def onAuthFailure_def
      onDisconnected_def drainSession_fields enqueue_def clearQueue_def resetSession_def
      disconnectSession_def Let_def split: option.split)

lemma applyOp_linked:
  assumes "status s = Ready \<longrightarrow> isReady s \<and> isPersistent s"
    and "isPersistent s \<longrightarrow> status s \<noteq> ManuallyDisconnected"
  shows "(status (applyOp op s) = Ready \<longrightarrow> isReady (applyOp op s) \<and> isPersistent (applyOp op s))
    \<and> (isPersistent (applyOp op s) \<longrightarrow> status (applyOp op s) \<noteq> ManuallyDisconnected)"
  using assms
  by (cases op)
    (simp_all add: heartbeat_def initializeSession_def
      onQr_def onQrRendered_def onReady_def onAuthenticated_def onAuthFailure_def
      onDisconnected_def drainSession_fields enqueue_def clearQueue_def resetSession_def
      disconnectSession_def Let_def split: option.split)

lemma applyOps_linked:
  assumes "status s = Ready \<longrightarrow> isReady s \<and> isPersistent s"
    and "isPersistent s \<longrightarrow> status s \<noteq> ManuallyDisconnected"
  shows "(status (applyOps ops s) = Ready \<longrightarrow> isReady (applyOps ops s) \<and> isPersistent (applyOps ops s))
    \<and> (isPersistent (applyOps ops s) \<longrightarrow> status (applyOps ops s) \<noteq> ManuallyDisconnected)"
  using assms
proof (induction ops arbitrary: s)
  case Nil
  then show ?case by simp
next
  case (Cons op ops)
  from applyOp_linked [OF Cons.prems, of op]
  have "status (applyOp op s) = Ready \<longrightarrow> isReady (applyOp op s) \<and> isPersistent (applyOp op s)"
    and "isPersistent (applyOp op s) \<longrightarrow> status (applyOp op s) \<noteq> ManuallyDisconnected"
    by blast+
  from Cons.IH [OF this] show ?case by simp
qed

lemma applyOps_append: "applyOps (xs @ ys) s = applyOps ys (applyOps xs s)"
  by (induction xs arbitrary: s) simp_all

lemma applyOps_isPersistent:
  "isPersistent (applyOps ops s)
     = (readySinceLastDisconnect ops \<or> (isPersistent s \<and> \<not> (\<exists>op \<in> set ops. isPermanentDisconnect op)))"
proof (induction ops rule: rev_induct)
  case Nil
  then show ?case by (simp add: readySinceLastDisconnect_def)
next
  case (snoc op ops)
  have "isPersistent (applyOps (ops @ [op]) s) = isPersistent (applyOp op (applyOps ops s))"
    by (simp add: applyOps_append)
  also have "\<dots> = (if isReadyEvent op then True else if isPermanentDisconnect op then False
                    else isPersistent (applyOps ops s))"
    by (rule applyOp_isPersistent)
  finally show ?case using snoc.IH
    by (auto simp add: readySinceLastDisconnect_def isReadyEvent_def isPermanentDisconnect_def
        split: operation.splits)
qed

lemma readySinceLastDisconnect_iff:
  "readySinceLastDisconnect ops
     \<longleftrightarrow> (\<exists>pre nowIso post. ops = pre @ OpReady nowIso # post
            \<and> (\<forall>op \<in> set post. \<not> isPermanentDisconnect op))"
proof (induction ops rule: rev_induct)
  case Nil
  then show ?case by (simp add: readySinceLastDisconnect_def)
next
  case (snoc op ops)
  let ?R = "\<lambda>xs. \<exists>pre nowIso post. xs = pre @ OpReady nowIso # post
            \<and> (\<forall>op \<in> set post. \<not> isPermanentDisconnect op)"
  show ?case
  proof (cases "isReadyEvent op")
    case True
    then obtain nowIso where op: "op = OpReady nowIso"
      by (cases op) (simp_all add: isReadyEvent_def)
    have "ops @ [op] = ops @ OpReady nowIso # []" by (simp add: op)
    then have "?R (ops @ [op])" by (metis empty_iff list.set(1))
    moreover have "readySinceLastDisconnect (ops @ [op])"
      by (simp add: readySinceLastDisconnect_def True)
    ultimately show ?thesis by blast
  next
    case notReady: False
    show ?thesis
    proof (cases "isPermanentDisconnect op")
      case True
      have "\<not> ?R (ops @ [op])"
      proof
        assume "?R (ops @ [op])"
        then obtain pre nowIso post where eq: "ops @ [op] = pre @ OpReady nowIso # post"
          and nd: "\<forall>op \<in> set post. \<not> isPermanentDisconnect op" by blast
        show False
        proof (cases post rule: rev_cases)
          case Nil
          with eq have "op = OpReady nowIso" by simp
          with notReady show False by (simp add: isReadyEvent_def)
        next
          case (snoc post' x)
          with eq have "ops @ [op] = (pre @ OpReady nowIso # post') @ [x]" by simp
          then have "x = op" by (simp only: append1_eq_conv)
          with snoc nd True show False by simp
        qed
      qed
      moreover have "\<not> readySinceLastDisconnect (ops @ [op])"
        by (simp add: readySinceLastDisconnect_def True notReady)
      ultimately show ?thesis by blast
    next
      case False
      have "?R (ops @ [op]) \<longleftrightarrow> ?R ops"
      proof
        assume "?R (ops @ [op])"
        then obtain pre nowIso post where eq: "ops @ [op] = pre @ OpReady nowIso # post"
          and nd: "\<forall>op \<in> set post. \<not> isPermanentDisconnect op" by blast
        show "?R ops"
        proof (cases post rule: rev_cases)
          case Nil
          with eq have "op = OpReady nowIso" by simp
          with notReady show ?thesis by (simp add: isReadyEvent_def)
        next
          case (snoc post' x)
          with eq have "ops @ [op] = (pre @ OpReady nowIso # post') @ [x]" by simp
          then have "ops = pre @ OpReady nowIso # post'" by (simp only: append1_eq_conv)
          moreover from snoc nd have "\<forall>op \<in> set post'. \<not> isPermanentDisconnect op" by simp
          ultimately show ?thesis by blast
        qed
      next
        assume "?R ops"
        then obtain pre nowIso post where eq: "ops = pre @ OpReady nowIso # post"
          and nd: "\<forall>op \<in> set post. \<not> isPermanentDisconnect op" by blast
        from eq have "ops @ [op] = pre @ OpReady nowIso # (post @ [op])" by simp
        moreover from nd False have "\<forall>x \<in> set (post @ [op]). \<not> isPermanentDisconnect x" by simp
        ultimately show "?R (ops @ [op])" by blast
      qed
      moreover have "readySinceLastDisconnect (ops @ [op]) = readySinceLastDisconnect ops"
        by (simp add: readySinceLastDisconnect_def False notReady)
      ultimately show ?thesis using snoc.IH by simp
    qed
  qed
qed

section \<open>What a save writes\<close>

lemma persistedData_map_of:
  "map_of (persistedData reg acc) f
     = (case filter (\<lambda>(k, s). isPersistent s \<and> truthy (lastLinked s) \<and> firmId s = f
                          \<and> firmId s \<noteq> ''__proto__'') reg of
          [] \<Rightarrow> map_of acc f
        | x # xs \<Rightarrow> Some (persistedRecordOf (snd (last (x # xs)))))"
proof (induction reg arbitrary: acc)
  case Nil
  then show ?case by simp
next
  case (Cons x reg)
  obtain k' s' where x: "x = (k', s')" by (cases x)
  show ?case
    unfolding x
    by (simp add: Cons.IH setProperty_def update_conv' split: list.split)
qed

lemma persistedData_absent:
  "\<forall>(k, s) \<in> set reg. firmId s = f \<longrightarrow> \<not> (isPersistent s \<and> truthy (lastLinked s)) \<Longrightarrow>
   map_of (persistedData reg []) f = None"
proof -
  assume a: "\<forall>(k, s) \<in> set reg. firmId s = f \<longrightarrow> \<not> (isPersistent s \<and> truthy (lastLinked s))"
  then have "filter (\<lambda>(k, s). isPersistent s \<and> truthy (lastLinked s) \<and> firmId s = f
                        \<and> firmId s \<noteq> ''__proto__'') reg = []"
    by (auto simp add: filter_empty_conv)
  then show ?thesis by (simp add: persistedData_map_of)
qed

lemma persistedData_present:
  assumes "(k, s) \<in> set reg" "isPersistent s" "truthy (lastLinked s)"
    and uniq: "\<forall>(k', s') \<in> set reg. firmId s' = firmId s \<longrightarrow> s' = s"
    and name: "firmId s \<noteq> ''__proto__''"
  shows "map_of (persistedData reg acc) (firmId s) = Some (persistedRecordOf s)"
proof -
  let ?P = "\<lambda>(k, s'). isPersistent s' \<and> truthy (lastLinked s') \<and> firmId s' = firmId s
                      \<and> firmId s' \<noteq> ''__proto__''"
  from assms(1-3) name have "(k, s) \<in> set (filter ?P reg)" by simp
  then obtain x xs where f: "filter ?P reg = x # xs" by (cases "filter ?P reg") auto
  have "last (x # xs) \<in> set (filter ?P reg)" unfolding f by (rule last_in_set) simp
  then have "last (x # xs) \<in> set reg" and "firmId (snd (last (x # xs))) = firmId s"
    by auto
  with uniq have "snd (last (x # xs)) = s" by (cases "last (x # xs)") auto
  with f show ?thesis by (simp add: persistedData_map_of del: last.simps)
qed

section \<open>Registries the service builds\<close>

lemma sessionKeyOf_inj: "sessionKeyOf a = sessionKeyOf b \<longleftrightarrow> a = b"
  by (simp add: sessionKeyOf_def)

lemma update_entries:
  "distinct (map fst al) \<Longrightarrow> (k', v') \<in> set (AList.update k v al) \<Longrightarrow>
   (k' = k \<and> v' = v) \<or> ((k', v') \<in> set al \<and> k' \<noteq> k)"
proof (induction al)
  case Nil
  then show ?case by simp
next
  case (Cons x al)
  obtain a b where x: "x = (a, b)" by (cases x)
  show ?case
  proof (cases "a = k")
    case True
    with Cons.prems x have "(k', v') = (k, v) \<or> (k', v') \<in> set al" by simp
    moreover from Cons.prems(1) x True have "k \<notin> fst ` set al" by simp
    ultimately show ?thesis by force
  next
    case False
    with Cons.prems x have "(k', v') = (a, b) \<or> (k', v') \<in> set (AList.update k v al)" by simp
    moreover from Cons.prems(1) have "distinct (map fst al)" by simp
    ultimately show ?thesis using Cons.IH False x by auto
  qed
qed

lemma update_member: "(k, v) \<in> set (AList.update k v al)"
  by (rule map_of_SomeD) (simp add: update_conv')

lemma registryOk_entry:
  "registryOk reg \<Longrightarrow> (k, s) \<in> set reg \<Longrightarrow> k = sessionKeyOf (firmId s)"
  by (auto simp add: registryOk_def list_all_iff)

lemma registryOk_update:
  assumes ok: "registryOk reg" and f: "key = sessionKeyOf (firmId s')"
  shows "registryOk (AList.update key s' reg)"
    and "\<forall>(k, s) \<in> set (AList.update key s' reg). firmId s = firmId s' \<longrightarrow> s = s'"
proof -
  from ok have d: "distinct (map fst reg)" by (simp add: registryOk_def)
  have ent: "k = sessionKeyOf (firmId s)" if "(k, s) \<in> set (AList.update key s' reg)" for k s
    using update_entries [OF d that] f registryOk_entry [OF ok] by blast
  from d have "distinct (map fst (AList.update key s' reg))" by (rule distinct_update)
  with ent show "registryOk (AList.update key s' reg)"
    by (auto simp add: registryOk_def list_all_iff)
  show "\<forall>(k, s) \<in> set (AList.update key s' reg). firmId s = firmId s' \<longrightarrow> s = s'"
  proof (clarify)
    fix k s assume m: "(k, s) \<in> set (AList.update key s' reg)" and e: "firmId s = firmId s'"
    from ent [OF m] e f have "k = key" by simp
    with update_entries [OF d m] show "s = s'" by blast
  qed
qed

lemma registryOk_Nil: "registryOk []"
  by (simp add: registryOk_def)

lemma registryOk_loadEntries:
  "registryOk reg \<Longrightarrow> registryOk (fst (loadEntries now entries reg es))"
proof (induction entries arbitrary: reg es)
  case Nil
  then show ?case by simp
next
  case (Cons x entries)
  obtain f sessionData where x: "x = (f, sessionData)" by (cases x)
  have "registryOk (AList.update (sessionKeyOf f) (restoredSession now f sessionData) reg)"
    by (rule registryOk_update(1) [OF Cons.prems]) (simp add: restoredSession_def)
  with Cons show ?case by (simp add: x)
qed

lemma registryOk_getOrCreateSession:
  assumes "registryOk reg"
  shows "registryOk (snd (getOrCreateSession now f reg))"
proof (cases "f = []")
  case True
  with assms show ?thesis by (simp add: getOrCreateSession_def)
next
  case False
  show ?thesis
  proof (cases "map_of reg (sessionKeyOf f)")
    case None
    have "registryOk (AList.update (sessionKeyOf f) (freshSession now f) reg)"
      by (rule registryOk_update(1) [OF assms]) (simp add: freshSession_def)
    then have "registryOk (AList.update (sessionKeyOf f) ((freshSession now f)\<lparr>lastActivity := now\<rparr>)
        (AList.update (sessionKeyOf f) (freshSession now f) reg))"
      by (rule registryOk_update(1)) (simp add: freshSession_def)
    with None False show ?thesis
      by (simp add: getOrCreateSession_def Let_def update_conv')
  next
    case (Some s)
    then have "(sessionKeyOf f, s) \<in> set reg" by (rule map_of_SomeD)
    from registryOk_entry [OF assms this] have "firmId s = f" by (simp add: sessionKeyOf_inj)
    then have "registryOk (AList.update (sessionKeyOf f) (s\<lparr>lastActivity := now\<rparr>) reg)"
      by (intro registryOk_update(1) [OF assms]) simp
    with Some False show ?thesis
      by (simp add: getOrCreateSession_def Let_def)
  qed
qed

lemma registryOk_onSession:
  assumes ok: "registryOk reg" and keep: "\<And>s. firmId (fst (g s)) = firmId s"
  shows "registryOk (fst (onSession key g reg))"
proof (cases "map_of reg key")
  case None
  with ok show ?thesis by (simp add: onSession_def)
next
  case (Some s)
  then have "(key, s) \<in> set reg" by (rule map_of_SomeD)
  from registryOk_entry [OF ok this] keep have "key = sessionKeyOf (firmId (fst (g s)))" by simp
  from registryOk_update(1) [OF ok this] Some show ?thesis
    by (simp add: onSession_def split_beta)
qed

section \<open>Persistence of a session\<close>

lemma clientReady_persists:
  assumes ok: "registryOk reg" and s: "map_of reg key = Some s" and iso: "nowIso \<noteq> []"
    and name: "firmId s \<noteq> ''__proto__''"
  shows "\<exists>d. clientReady nowIso key s reg
              = (onReady nowIso s, AList.update key (onReady nowIso s) reg, [WriteFile d])
           \<and> map_of d (firmId s) = Some (persistedRecordOf (onReady nowIso s))"
proof -
  let ?s' = "onReady nowIso s" and ?reg' = "AList.update key (onReady nowIso s) reg"
  from s have "(key, s) \<in> set reg" by (rule map_of_SomeD)
  from registryOk_entry [OF ok this] have key: "key = sessionKeyOf (firmId ?s')"
    by (simp add: onReady_def)
  have fid: "firmId ?s' = firmId s" by (simp add: onReady_def)
  have "map_of (persistedData ?reg' []) (firmId ?s') = Some (persistedRecordOf ?s')"
  proof (rule persistedData_present)
    show "(key, ?s') \<in> set ?reg'" by (rule update_member)
    show "isPersistent ?s'" by (simp add: onReady_def)
    show "truthy (lastLinked ?s')" using iso by (simp add: onReady_def truthy_def)
    show "\<forall>(k', s') \<in> set ?reg'. firmId s' = firmId ?s' \<longrightarrow> s' = ?s'"
      by (rule registryOk_update(2) [OF ok key])
    show "firmId ?s' \<noteq> ''__proto__''" using name by (simp add: onReady_def)
  qed
  moreover from s have "clientReady nowIso key s reg
      = (?s', ?reg', [WriteFile (persistedData ?reg' [])])"
    by (simp add: clientReady_def savePersistedSessions_def Let_def)
  ultimately show ?thesis using fid by simp
qed

text \<open>
  A ready event that reaches the handler of a session the reaper has removed changes
  nothing in the Map, and the save writes the Map as it is.
\<close>

lemma clientReady_removed:
  "map_of reg key \<noteq> Some s \<Longrightarrow>
   clientReady nowIso key s reg = (onReady nowIso s, reg, [WriteFile (persistedData reg [])])"
  by (simp add: clientReady_def savePersistedSessions_def Let_def)

text \<open>
  What a save writes for a tenant depends on that tenant's session only, and so does what
  a load registers under the tenant's key.
\<close>

lemma persistedData_single:
  "persistedData [(key, s)] []
     = (if isPersistent s \<and> truthy (lastLinked s) \<and> firmId s \<noteq> ''__proto__''
        then [(firmId s, persistedRecordOf s)] else [])"
  by (simp add: setProperty_def)

lemma persistedData_own:
  assumes ok: "registryOk reg" and s: "map_of reg key = Some s"
  shows "map_of (persistedData reg []) (firmId s) = map_of (persistedData [(key, s)] []) (firmId s)"
proof (cases "isPersistent s \<and> truthy (lastLinked s) \<and> firmId s \<noteq> ''__proto__''")
  case True
  from s have mem: "(key, s) \<in> set reg" by (rule map_of_SomeD)
  from registryOk_entry [OF ok mem] have key: "key = sessionKeyOf (firmId s)" .
  from s have same: "AList.update key s reg = reg" by (rule update_triv)
  have uniq: "\<forall>(k', s') \<in> set reg. firmId s' = firmId s \<longrightarrow> s' = s"
    using registryOk_update(2) [OF ok key] by (simp only: same)
  from True have "map_of (persistedData reg []) (firmId s) = Some (persistedRecordOf s)"
    by (intro persistedData_present [OF mem _ _ uniq]) simp_all
  with True show ?thesis by (simp add: setProperty_def)
next
  case False
  have "map_of (persistedData reg []) (firmId s) = None"
  proof (cases "firmId s = ''__proto__''")
    case True
    then show ?thesis by (simp add: persistedData_map_of filter_empty_conv split: list.split)
  next
    case named: False
    from s have mem: "(key, s) \<in> set reg" by (rule map_of_SomeD)
    from registryOk_entry [OF ok mem] have key: "key = sessionKeyOf (firmId s)" .
    from s have same: "AList.update key s reg = reg" by (rule update_triv)
    have uniq: "\<forall>(k', s') \<in> set reg. firmId s' = firmId s \<longrightarrow> s' = s"
      using registryOk_update(2) [OF ok key] by (simp only: same)
    show ?thesis
    proof (rule persistedData_absent, clarify)
      fix k' s' assume "(k', s') \<in> set reg" "firmId s' = firmId s"
        "isPersistent s'" "truthy (lastLinked s')"
      with uniq have "s' = s" by blast
      with False named \<open>isPersistent s'\<close> \<open>truthy (lastLinked s')\<close> show False by simp
    qed
  qed
  with False show ?thesis by (auto simp add: setProperty_def)
qed

lemma loadEntries_other:
  "f \<notin> fst ` set entries \<Longrightarrow>
   map_of (fst (loadEntries now entries reg es)) (sessionKeyOf f) = map_of reg (sessionKeyOf f)"
proof (induction entries arbitrary: reg es)
  case Nil
  then show ?case by simp
next
  case (Cons x entries)
  obtain g sessionData where x: "x = (g, sessionData)" by (cases x)
  from Cons.prems x have "g \<noteq> f" and "f \<notin> fst ` set entries" by auto
  with Cons.IH show ?case by (simp add: x update_conv' sessionKeyOf_inj)
qed

lemma loadEntries_own:
  assumes "distinct (map fst entries)"
  shows "map_of (fst (loadEntries now entries reg es)) (sessionKeyOf f)
     = (case map_of entries f of
          None \<Rightarrow> map_of reg (sessionKeyOf f)
        | Some sessionData \<Rightarrow>
            if isPersistent_p sessionData \<and> truthy (lastLinked_p sessionData)
            then Some (restoredSession now f sessionData)
            else map_of reg (sessionKeyOf f))"
  using assms
proof (induction entries arbitrary: reg es)
  case Nil
  then show ?case by simp
next
  case (Cons x entries)
  obtain g sessionData where x: "x = (g, sessionData)" by (cases x)
  from Cons.prems x have d: "distinct (map fst entries)" and g: "g \<notin> fst ` set entries" by auto
  show ?case
  proof (cases "g = f")
    case True
    with g have "f \<notin> fst ` set entries" by simp
    from loadEntries_other [OF this] True show ?thesis
      by (simp add: x update_conv')
  next
    case False
    then have "sessionKeyOf f \<noteq> sessionKeyOf g" by (auto simp add: sessionKeyOf_inj)
    with False Cons.IH [OF d] show ?thesis
      by (simp add: x update_conv' split: option.split)
  qed
qed

text \<open>A session across restarts: what each step keeps.\<close>

lemma readySinceLastDisconnect_snoc:
  "readySinceLastDisconnect (ops @ [op])
     = (if isReadyEvent op then True else if isPermanentDisconnect op then False
        else readySinceLastDisconnect ops)"
  by (simp add: readySinceLastDisconnect_def)

lemma applyOp_firmId: "firmId (applyOp op s) = firmId s"
  by (cases op)
    (simp_all add: heartbeat_def initializeSession_def
      onQr_def onQrRendered_def onReady_def onAuthenticated_def onAuthFailure_def
      onDisconnected_def drainSession_fields enqueue_def clearQueue_def resetSession_def
      disconnectSession_def Let_def split: option.split)

lemma applyOp_lastLinked:
  "\<not> savesAfter op \<Longrightarrow> lastLinked (applyOp op s) = lastLinked s"
  by (cases op)
    (simp_all add: savesAfter_def isReadyEvent_def isPermanentDisconnect_def
      heartbeat_def initializeSession_def
      onQr_def onQrRendered_def onAuthenticated_def onAuthFailure_def
      onDisconnected_def drainSession_fields enqueue_def clearQueue_def resetSession_def
      Let_def split: option.split)

lemma storeAgrees_saved: "storeAgrees s (persistedData [(key, s)] [])"
  by (simp add: storeAgrees_def setProperty_def persistedRecordOf_def)

lemma storeAgrees_fields:
  "isPersistent s' = isPersistent s \<Longrightarrow> lastLinked s' = lastLinked s \<Longrightarrow> firmId s' = firmId s \<Longrightarrow>
   storeAgrees s' file = storeAgrees s file"
  by (simp add: storeAgrees_def)

lemma handled_snoc:
  "handled (steps @ [step]) = handled steps @ (case step of Handle op \<Rightarrow> [op] | _ \<Rightarrow> [])"
  by (simp add: handled_def)

lemma lifeRun_append: "lifeRun (xs @ ys) w = lifeRun ys (lifeRun xs w)"
  by (induction xs arbitrary: w) simp_all

lemma lifeStep_keeps:
  assumes f: "firmId s0 = f" and p: "isPersistent s0 \<longleftrightarrow> readySinceLastDisconnect h"
    and a: "storeAgrees s0 file0"
    and step: "lifeStep step (Some s0, file0) = (Some s, file)"
  shows "firmId s = f
    \<and> (isPersistent s \<longleftrightarrow> readySinceLastDisconnect (h @ (case step of Handle op \<Rightarrow> [op] | _ \<Rightarrow> [])))
    \<and> storeAgrees s file"
proof (cases step)
  case (Handle op)
  with step have s: "s = applyOp op s0"
    and fl: "file = (if savesAfter op then persistedData [(sessionKeyOf (firmId s), s)] [] else file0)"
    by (auto simp add: Let_def split: if_splits)
  have "firmId s = f" using f by (simp add: s applyOp_firmId)
  moreover have "isPersistent s \<longleftrightarrow> readySinceLastDisconnect (h @ [op])"
    using p by (simp add: s applyOp_isPersistent readySinceLastDisconnect_snoc)
  moreover have "storeAgrees s file"
  proof (cases "savesAfter op")
    case True
    with fl have "file = persistedData [(sessionKeyOf (firmId s), s)] []" by (simp only: if_True)
    then show ?thesis by (simp only: storeAgrees_saved)
  next
    case False
    then have "isPersistent s = isPersistent s0"
      by (simp add: s applyOp_isPersistent savesAfter_def)
    moreover from False have "lastLinked s = lastLinked s0" by (simp add: s applyOp_lastLinked)
    moreover have "firmId s = firmId s0" by (simp add: s applyOp_firmId)
    ultimately have "storeAgrees s file0 = storeAgrees s0 file0" by (rule storeAgrees_fields)
    with a False show ?thesis by (simp add: fl)
  qed
  ultimately show ?thesis by (simp add: Handle)
next
  case PeriodicSave
  with step have s: "s = s0" and fl: "file = persistedData [(sessionKeyOf (firmId s0), s0)] []"
    by (auto split: if_splits)
  have "storeAgrees s file" by (simp only: s fl storeAgrees_saved)
  with f p s show ?thesis by (simp add: PeriodicSave)
next
  case (Restart now')
  with step have fl: "file = file0"
    and s: "map_of (fst (loadPersistedSessions now' (Some file0) [])) (sessionKeyOf (firmId s0)) = Some s"
    by auto
  show ?thesis
  proof (cases "isPersistent s0 \<and> truthy (lastLinked s0) \<and> firmId s0 \<noteq> ''__proto__''")
    case True
    with a obtain r where r: "file0 = [(firmId s0, r)]" "isPersistent_p r" "truthy (lastLinked_p r)"
      by (cases file0) (auto simp add: storeAgrees_def)
    with s have "s = restoredSession now' (firmId s0) r"
      by (simp add: loadPersistedSessions_def)
    with True r f p fl show ?thesis
      by (simp add: Restart restoredSession_def storeAgrees_def)
  next
    case False
    with a have "file0 = []" by (simp add: storeAgrees_def)
    with s show ?thesis by (simp add: loadPersistedSessions_def)
  qed
qed

lemma lifeRun_keeps:
  "lifeRun steps (Some (freshSession now f), []) = (Some s, store) \<Longrightarrow>
   firmId s = f
   \<and> (isPersistent s \<longleftrightarrow> readySinceLastDisconnect (handled steps))
   \<and> storeAgrees s store"
proof (induction steps arbitrary: s store rule: rev_induct)
  case Nil
  then show ?case
    by (auto simp add: freshSession_def readySinceLastDisconnect_def handled_def storeAgrees_def
        truthy_def)
next
  case (snoc step steps)
  obtain so file0 where w: "lifeRun steps (Some (freshSession now f), []) = (so, file0)"
    by (cases "lifeRun steps (Some (freshSession now f), [])")
  with snoc.prems have st: "lifeStep step (so, file0) = (Some s, store)"
    by (simp add: lifeRun_append)
  then obtain s0 where so: "so = Some s0" by (cases so) simp_all
  from snoc.IH [OF w [unfolded so]]
  have "firmId s0 = f" and "isPersistent s0 \<longleftrightarrow> readySinceLastDisconnect (handled steps)"
    and "storeAgrees s0 file0" by simp_all
  from lifeStep_keeps [OF this st [unfolded so]] show ?case
    by (simp only: handled_snoc)
qed

text \<open>
  Claim C4. Take a session from its creation by \<^verbatim>\<open>getOrCreateSession\<close>, for a tenant the
  store has no record of, through any sequence of operations, saves and restarts of the
  service. As long as the session exists (a restart keeps it exactly when the store holds
  its record), \<open>isPersistent\<close> holds if and only if a ready event has been observed on
  it since its last permanent disconnect, and the store holds a record for the tenant if
  and only if the session is persistent with a \<open>lastLinked\<close> date. The ready handler
  sets \<open>isReady\<close>, status \<open>Ready\<close>, no QR payload, zero reconnect attempts,
  \<open>isPersistent\<close> and \<open>lastLinked\<close>, and the save it triggers writes the record of the
  session (for a session that is registered; a tenant named \<^verbatim>\<open>__proto__\<close>, which no session
  token yields, is never written). No operation other than the ready event turns
  \<open>isPersistent\<close> on.
\<close>

theorem isPersistent_iff_ready_observed:
  "(lifeRun steps (Some (freshSession now f), []) = (Some s', store) \<longrightarrow>
      (isPersistent s' \<longleftrightarrow> readySinceLastDisconnect (handled steps))
      \<and> (map_of store f \<noteq> None \<longleftrightarrow>
           isPersistent s' \<and> truthy (lastLinked s') \<and> f \<noteq> ''__proto__''))
   \<and> (readySinceLastDisconnect ops
        \<longleftrightarrow> (\<exists>pre nowIso post. ops = pre @ OpReady nowIso # post
               \<and> (\<forall>op \<in> set post. \<not> isPermanentDisconnect op)))
   \<and> applyOp (OpReady nowIso) s
       = s\<lparr>isReady := True, status := Ready, qrCode := None, reconnectAttempts := 0,
           isPersistent := True, lastLinked := Some nowIso\<rparr>
   \<and> (registryOk reg \<and> map_of reg key = Some s \<and> nowIso \<noteq> [] \<and> firmId s \<noteq> ''__proto__'' \<longrightarrow>
        (\<exists>d. clientReady nowIso key s reg
                = (applyOp (OpReady nowIso) s,
                   AList.update key (applyOp (OpReady nowIso) s) reg, [WriteFile d])
            \<and> map_of d (firmId s) = Some (persistedRecordOf (applyOp (OpReady nowIso) s))))
   \<and> (\<not> isReadyEvent op \<and> isPersistent (applyOp op s) \<longrightarrow> isPersistent s)"
proof -
  have a: "lifeRun steps (Some (freshSession now f), []) = (Some s', store) \<longrightarrow>
      (isPersistent s' \<longleftrightarrow> readySinceLastDisconnect (handled steps))
      \<and> (map_of store f \<noteq> None \<longleftrightarrow>
           isPersistent s' \<and> truthy (lastLinked s') \<and> f \<noteq> ''__proto__'')"
  proof
    assume "lifeRun steps (Some (freshSession now f), []) = (Some s', store)"
    from lifeRun_keeps [OF this]
    have f: "firmId s' = f"
      and p: "isPersistent s' \<longleftrightarrow> readySinceLastDisconnect (handled steps)"
      and st: "storeAgrees s' store" by simp_all
    from st f have "map_of store f \<noteq> None \<longleftrightarrow>
           isPersistent s' \<and> truthy (lastLinked s') \<and> f \<noteq> ''__proto__''"
      by (cases store) (auto simp add: storeAgrees_def split: if_splits)
    with p show "(isPersistent s' \<longleftrightarrow> readySinceLastDisconnect (handled steps))
      \<and> (map_of store f \<noteq> None \<longleftrightarrow>
           isPersistent s' \<and> truthy (lastLinked s') \<and> f \<noteq> ''__proto__'')"
      by (rule conjI)
  qed
  have b: "readySinceLastDisconnect ops
        \<longleftrightarrow> (\<exists>pre nowIso post. ops = pre @ OpReady nowIso # post
               \<and> (\<forall>op \<in> set post. \<not> isPermanentDisconnect op))"
    by (rule readySinceLastDisconnect_iff)
  have c: "applyOp (OpReady nowIso) s
       = s\<lparr>isReady := True, status := Ready, qrCode := None, reconnectAttempts := 0,
           isPersistent := True, lastLinked := Some nowIso\<rparr>"
    by (simp add: onReady_def)
  have d: "registryOk reg \<and> map_of reg key = Some s \<and> nowIso \<noteq> [] \<and> firmId s \<noteq> ''__proto__'' \<longrightarrow>
        (\<exists>d. clientReady nowIso key s reg
                = (applyOp (OpReady nowIso) s,
                   AList.update key (applyOp (OpReady nowIso) s) reg, [WriteFile d])
            \<and> map_of d (firmId s) = Some (persistedRecordOf (applyOp (OpReady nowIso) s)))"
    using clientReady_persists by simp
  have e: "\<not> isReadyEvent op \<and> isPersistent (applyOp op s) \<longrightarrow> isPersistent s"
    by (simp add: applyOp_isPersistent split: if_splits)
  from a b c d e show ?thesis by (intro conjI)
qed

theorem isPersistent_iff_ready_observed_witness:
  "lifeRun [Handle (OpInitialize 1), Handle (OpReady ''2025-01-01T00:00:00.000Z''), Restart 5000,
            Handle (OpDisconnected ''LOGOUT'')]
      (Some (freshSession 1000 ''a''), [])
     = (Some ((restoredSession 5000 ''a'' restoredExample)\<lparr>status := Disconnected\<rparr>),
        [(''a'', restoredExample)])
   \<and> isPersistent ((restoredSession 5000 ''a'' restoredExample)\<lparr>status := Disconnected\<rparr>)
   \<and> readySinceLastDisconnect
        [OpInitialize 1, OpReady ''2025-01-01T00:00:00.000Z'', OpDisconnected ''LOGOUT'']
   \<and> lifeRun [Handle (OpInitialize 1), Handle (OpReady ''2025-01-01T00:00:00.000Z''),
               Handle (OpDisconnectPermanently (\<lambda>e. False)), Handle (OpInitialize 2)]
        (Some (freshSession 1000 ''a''), [])
       = (Some ((freshSession 1000 ''a'')\<lparr>status := Initializing, client := Some 2,
                   reconnectAttempts := 1\<rparr>), [])
   \<and> \<not> readySinceLastDisconnect
        [OpInitialize 1, OpReady ''2025-01-01T00:00:00.000Z'',
         OpDisconnectPermanently (\<lambda>e. False), OpInitialize 2]
   \<and> registryOk [(''firm_a'', restoredSession 5000 ''a'' restoredExample)]
   \<and> clientReady ''2025-02-02T00:00:00.000Z'' ''firm_a'' (restoredSession 5000 ''a'' restoredExample)
        [(''firm_a'', restoredSession 5000 ''a'' restoredExample)]
       = (onReady ''2025-02-02T00:00:00.000Z'' (restoredSession 5000 ''a'' restoredExample),
          [(''firm_a'', onReady ''2025-02-02T00:00:00.000Z'' (restoredSession 5000 ''a'' restoredExample))],
          [WriteFile [(''a'', persistedRecordOf
             (onReady ''2025-02-02T00:00:00.000Z'' (restoredSession 5000 ''a'' restoredExample)))]])
   \<and> \<not> isReadyEvent OpAuthenticated
   \<and> isPersistent (applyOp OpAuthenticated (restoredSession 5000 ''a'' restoredExample))
   \<and> isPersistent (restoredSession 5000 ''a'' restoredExample)"
  using isPersistent_iff_ready_observed [where steps = "[Handle (OpInitialize 1),
        Handle (OpReady ''2025-01-01T00:00:00.000Z''), Restart 5000, Handle (OpDisconnected ''LOGOUT'')]"
      and now = 1000 and f = "''a''"
      and s' = "(restoredSession 5000 ''a'' restoredExample)\<lparr>status := Disconnected\<rparr>"
      and store = "[(''a'', restoredExample)]"
      and ops = "[OpInitialize 1, OpReady ''2025-01-01T00:00:00.000Z'', OpDisconnected ''LOGOUT'']"
      and nowIso = "''2025-02-02T00:00:00.000Z''"
      and s = "restoredSession 5000 ''a'' restoredExample"
      and reg = "[(''firm_a'', restoredSession 5000 ''a'' restoredExample)]"
      and key = "''firm_a''" and op = OpAuthenticated]
    isPersistent_iff_ready_observed [where steps = "[Handle (OpInitialize 1),
        Handle (OpReady ''2025-01-01T00:00:00.000Z''),
        Handle (OpDisconnectPermanently (\<lambda>e. False)), Handle (OpInitialize 2)]"
      and now = 1000 and f = "''a''"
      and s' = "(freshSession 1000 ''a'')\<lparr>status := Initializing, client := Some 2,
                   reconnectAttempts := 1\<rparr>"
      and store = "[]"
      and ops = "[]" and nowIso = "''x''" and s = "freshSession 1000 ''a''"
      and reg = "[]" and key = "''firm_a''" and op = OpAuthenticated]
  by (simp add: registryOk_def sessionKeyOf_def restoredSession_def freshSession_def
      restoredExample_def isReadyEvent_def isPermanentDisconnect_def onAuthenticated_def
      clientReady_def savePersistedSessions_def onReady_def truthy_def setProperty_def
      persistedRecordOf_def readySinceLastDisconnect_def handled_def savesAfter_def
      initializeSession_def onDisconnected_def disconnectSession_def
      loadPersistedSessions_def Let_def)

section \<open>Reconnection after a disconnect\<close>

lemma created_linked:
  assumes "s0 = freshSession now f \<or> s0 = restoredSession now f sessionData"
  shows "(status (applyOps ops s0) = Ready \<longrightarrow> isReady (applyOps ops s0) \<and> isPersistent (applyOps ops s0))
    \<and> (isPersistent (applyOps ops s0) \<longrightarrow> status (applyOps ops s0) \<noteq> ManuallyDisconnected)"
proof (rule applyOps_linked)
  from assms show "status s0 = Ready \<longrightarrow> isReady s0 \<and> isPersistent s0"
    by (auto simp add: freshSession_def restoredSession_def)
  from assms show "isPersistent s0 \<longrightarrow> status s0 \<noteq> ManuallyDisconnected"
    by (auto simp add: freshSession_def restoredSession_def)
qed

text \<open>
  The timers the disconnected handler sets. The handler tests the status after it has set
  it to \<open>Disconnected\<close>, so a persistent session always gets a timer, with delay
  \<open>min 60000 (10000 * reconnectAttempts)\<close> milliseconds; a session that is not persistent
  gets one with delay \<open>min 30000 (5000 * reconnectAttempts)\<close> when the reason is neither
  NAVIGATION nor LOGOUT, and none otherwise. A persistent session is never in the manually
  disconnected state, whatever its history.
\<close>

lemma onDisconnected_timers:
  "(isPersistent s \<longrightarrow>
      onDisconnected key reason s
        = (s\<lparr>isReady := False, status := Disconnected, qrCode := None\<rparr>,
           [SetTimeout (ReconnectTimer key) (min 60000 (10000 * reconnectAttempts s))]))
   \<and> (\<not> isPersistent s \<and> reason \<noteq> ''NAVIGATION'' \<and> reason \<noteq> ''LOGOUT'' \<longrightarrow>
      onDisconnected key reason s
        = (s\<lparr>isReady := False, status := Disconnected, qrCode := None\<rparr>,
           [SetTimeout (ReconnectTimer key) (min 30000 (5000 * reconnectAttempts s))]))
   \<and> (\<not> isPersistent s \<and> (reason = ''NAVIGATION'' \<or> reason = ''LOGOUT'') \<longrightarrow>
      onDisconnected key reason s
        = (s\<lparr>isReady := False, status := Disconnected, qrCode := None\<rparr>, []))
   \<and> ((s0 = freshSession now f \<or> s0 = restoredSession now f sessionData) \<and> s = applyOps ops s0 \<longrightarrow>
        \<not> (isPersistent s \<and> status s = ManuallyDisconnected))"
proof -
  have a: "isPersistent s \<longrightarrow>
      onDisconnected key reason s
        = (s\<lparr>isReady := False, status := Disconnected, qrCode := None\<rparr>,
           [SetTimeout (ReconnectTimer key) (min 60000 (10000 * reconnectAttempts s))])"
    by (simp add: onDisconnected_def Let_def)
  have b: "\<not> isPersistent s \<and> reason \<noteq> ''NAVIGATION'' \<and> reason \<noteq> ''LOGOUT'' \<longrightarrow>
      onDisconnected key reason s
        = (s\<lparr>isReady := False, status := Disconnected, qrCode := None\<rparr>,
           [SetTimeout (ReconnectTimer key) (min 30000 (5000 * reconnectAttempts s))])"
    by (simp add: onDisconnected_def Let_def)
  have c: "\<not> isPersistent s \<and> (reason = ''NAVIGATION'' \<or> reason = ''LOGOUT'') \<longrightarrow>
      onDisconnected key reason s
        = (s\<lparr>isReady := False, status := Disconnected, qrCode := None\<rparr>, [])"
    by (auto simp add: onDisconnected_def Let_def)
  have d: "(s0 = freshSession now f \<or> s0 = restoredSession now f sessionData) \<and> s = applyOps ops s0 \<longrightarrow>
        \<not> (isPersistent s \<and> status s = ManuallyDisconnected)"
    using created_linked by blast
  from a b c d show ?thesis by (intro conjI)
qed

lemma onDisconnected_keeps_client:
  "client (fst (onDisconnected key reason s)) = client s"
  "status (fst (onDisconnected key reason s)) = Disconnected"
  "fst (onDisconnected key reason s) = s\<lparr>isReady := False, status := Disconnected, qrCode := None\<rparr>"
  by (simp_all add: onDisconnected_def Let_def)

lemma reconnect_timer_finds_client:
  assumes s: "map_of reg key = Some s" and c0: "client s = Some c0"
  shows "fireTimer c (ReconnectTimer key) (fst (onSession key (onDisconnected key reason) reg))
     = (fst (onSession key (onDisconnected key reason) reg), [])"
proof -
  let ?s1 = "fst (onDisconnected key reason s)"
  let ?reg1 = "AList.update key ?s1 reg"
  from s have r1: "fst (onSession key (onDisconnected key reason) reg) = ?reg1"
    by (simp add: onSession_def split_beta)
  have look: "map_of ?reg1 key = Some ?s1" by (simp add: update_conv')
  from c0 have "initializeSession c ?s1 = (?s1, [])"
    by (simp add: initializeSession_def onDisconnected_keeps_client(1))
  with look have "initializeClient c key ?reg1 = (AList.update key ?s1 ?reg1, [])"
    by (simp add: initializeClient_def onSession_def)
  also from look have "AList.update key ?s1 ?reg1 = ?reg1" by (rule update_triv)
  finally have "initializeClient c key ?reg1 = (?reg1, [])" .
  with look have "fireTimer c (ReconnectTimer key) ?reg1 = (?reg1, [])"
    by (simp add: fireTimer_def onDisconnected_keeps_client(2))
  then show ?thesis by (simp only: r1)
qed

lemma reconnect_timer_without_client:
  assumes s: "map_of reg key = Some s" and c0: "client s = None"
    and st: "status s \<noteq> ManuallyDisconnected"
    and att: "reconnectAttempts s + 1 \<le> maxReconnectAttempts s"
  shows "fireTimer c (ReconnectTimer key) reg
     = (AList.update key
          (s\<lparr>status := Initializing, reconnectAttempts := reconnectAttempts s + 1,
             client := Some c\<rparr>) reg,
        [NewClient c (''./whatsapp-session-firm-'' @ firmId s), ClientInitialize c])"
  using assms
  by (simp add: fireTimer_def initializeClient_def onSession_def initializeSession_def Let_def)

text \<open>
  Claim C5. The disconnected handler sets the timers of the claim: for the session
  registered under the key, with delay \<open>min 60000 (10000 * reconnectAttempts)\<close> when it
  is persistent, with delay \<open>min 30000 (5000 * reconnectAttempts)\<close> when it is not and the
  reason is neither NAVIGATION nor LOGOUT, and none otherwise. The reconnect they stand
  for does not take place. The handler leaves \<^verbatim>\<open>session.client\<close> as it is, and the
  timer's \<^verbatim>\<open>initializeClient\<close> returns at once for a session that has a client: for the
  session whose client reported the disconnect, the timer changes nothing, constructs no
  client and does not count an attempt. Only for a session without a client (after a
  reset, say) does the same timer construct and start a new client.
\<close>

theorem reconnect_timer_makes_no_client:
  "(map_of reg key = Some s \<and> client s = Some c0 \<longrightarrow>
      (\<exists>reg1 es. onSession key (onDisconnected key reason) reg = (reg1, es)
         \<and> map_of reg1 key = Some (s\<lparr>isReady := False, status := Disconnected, qrCode := None\<rparr>)
         \<and> (isPersistent s \<longrightarrow>
              es = [SetTimeout (ReconnectTimer key) (min 60000 (10000 * reconnectAttempts s))])
         \<and> (\<not> isPersistent s \<and> reason \<noteq> ''NAVIGATION'' \<and> reason \<noteq> ''LOGOUT'' \<longrightarrow>
              es = [SetTimeout (ReconnectTimer key) (min 30000 (5000 * reconnectAttempts s))])
         \<and> (\<not> isPersistent s \<and> (reason = ''NAVIGATION'' \<or> reason = ''LOGOUT'') \<longrightarrow> es = [])
         \<and> fireTimer c (ReconnectTimer key) reg1 = (reg1, [])))
   \<and> (map_of reg key = Some s \<and> client s = None \<and> status s \<noteq> ManuallyDisconnected
        \<and> reconnectAttempts s + 1 \<le> maxReconnectAttempts s \<longrightarrow>
        fireTimer c (ReconnectTimer key) reg
          = (AList.update key
               (s\<lparr>status := Initializing, reconnectAttempts := reconnectAttempts s + 1,
                  client := Some c\<rparr>) reg,
             [NewClient c (''./whatsapp-session-firm-'' @ firmId s), ClientInitialize c]))"
proof (intro conjI impI)
  assume h: "map_of reg key = Some s \<and> client s = Some c0"
  let ?s1 = "s\<lparr>isReady := False, status := Disconnected, qrCode := None\<rparr>"
  let ?reg1 = "AList.update key ?s1 reg"
  let ?es = "snd (onDisconnected key reason s)"
  from h have run: "onSession key (onDisconnected key reason) reg = (?reg1, ?es)"
    by (simp add: onSession_def split_beta onDisconnected_keeps_client(3))
  have look: "map_of ?reg1 key = Some ?s1" by (simp add: update_conv')
  have p: "isPersistent s \<longrightarrow>
      ?es = [SetTimeout (ReconnectTimer key) (min 60000 (10000 * reconnectAttempts s))]"
    by (simp add: onDisconnected_def Let_def)
  have n: "\<not> isPersistent s \<and> reason \<noteq> ''NAVIGATION'' \<and> reason \<noteq> ''LOGOUT'' \<longrightarrow>
      ?es = [SetTimeout (ReconnectTimer key) (min 30000 (5000 * reconnectAttempts s))]"
    by (simp add: onDisconnected_def Let_def)
  have q: "\<not> isPersistent s \<and> (reason = ''NAVIGATION'' \<or> reason = ''LOGOUT'') \<longrightarrow> ?es = []"
    by (auto simp add: onDisconnected_def Let_def)
  from h have "fireTimer c (ReconnectTimer key) (fst (onSession key (onDisconnected key reason) reg))
     = (fst (onSession key (onDisconnected key reason) reg), [])"
    by (intro reconnect_timer_finds_client [of reg key s c0]) simp_all
  then have fire: "fireTimer c (ReconnectTimer key) ?reg1 = (?reg1, [])"
    by (simp only: run fst_conv)
  from run look p n q fire
  show "\<exists>reg1 es. onSession key (onDisconnected key reason) reg = (reg1, es)
         \<and> map_of reg1 key = Some (s\<lparr>isReady := False, status := Disconnected, qrCode := None\<rparr>)
         \<and> (isPersistent s \<longrightarrow>
              es = [SetTimeout (ReconnectTimer key) (min 60000 (10000 * reconnectAttempts s))])
         \<and> (\<not> isPersistent s \<and> reason \<noteq> ''NAVIGATION'' \<and> reason \<noteq> ''LOGOUT'' \<longrightarrow>
              es = [SetTimeout (ReconnectTimer key) (min 30000 (5000 * reconnectAttempts s))])
         \<and> (\<not> isPersistent s \<and> (reason = ''NAVIGATION'' \<or> reason = ''LOGOUT'') \<longrightarrow> es = [])
         \<and> fireTimer c (ReconnectTimer key) reg1 = (reg1, [])"
    by (intro exI [of _ ?reg1] exI [of _ ?es] conjI)
next
  assume "map_of reg key = Some s \<and> client s = None \<and> status s \<noteq> ManuallyDisconnected
        \<and> reconnectAttempts s + 1 \<le> maxReconnectAttempts s"
  then show "fireTimer c (ReconnectTimer key) reg
          = (AList.update key
               (s\<lparr>status := Initializing, reconnectAttempts := reconnectAttempts s + 1,
                  client := Some c\<rparr>) reg,
             [NewClient c (''./whatsapp-session-firm-'' @ firmId s), ClientInitialize c])"
    by (intro reconnect_timer_without_client) simp_all
qed

text \<open>
  The session linked at first use, whose client then reports a disconnect: the timer is
  set with no delay (the ready event has reset the counter), and when it fires the
  session stays as it is, disconnected. Had the handler cleared the client, the timer
  would have started client 2.
\<close>

theorem reconnect_timer_makes_no_client_witness:
  "map_of [(''firm_a'', linkedSession)] ''firm_a'' = Some linkedSession
   \<and> client linkedSession = Some 1 \<and> isPersistent linkedSession
   \<and> onSession ''firm_a'' (onDisconnected ''firm_a'' ''CONFLICT'') [(''firm_a'', linkedSession)]
       = ([(''firm_a'', linkedSession\<lparr>isReady := False, status := Disconnected, qrCode := None\<rparr>)],
          [SetTimeout (ReconnectTimer ''firm_a'') 0])
   \<and> fireTimer 2 (ReconnectTimer ''firm_a'')
        [(''firm_a'', linkedSession\<lparr>isReady := False, status := Disconnected, qrCode := None\<rparr>)]
       = ([(''firm_a'', linkedSession\<lparr>isReady := False, status := Disconnected, qrCode := None\<rparr>)],
          [])
   \<and> fireTimer 2 (ReconnectTimer ''firm_a'')
        [(''firm_a'', linkedSession\<lparr>isReady := False, status := Disconnected, qrCode := None,
                        client := None\<rparr>)]
       = ([(''firm_a'', linkedSession\<lparr>isReady := False, status := Initializing, qrCode := None,
                          client := Some 2, reconnectAttempts := 1\<rparr>)],
          [NewClient 2 ''./whatsapp-session-firm-a'', ClientInitialize 2])"
  using reconnect_timer_makes_no_client [where reg = "[(''firm_a'', linkedSession)]"
      and key = "''firm_a''" and s = linkedSession and ?c0.0 = 1 and reason = "''CONFLICT''" and c = 2]
    reconnect_timer_makes_no_client [where
      reg = "[(''firm_a'', linkedSession\<lparr>isReady := False, status := Disconnected, qrCode := None,
                        client := None\<rparr>)]"
      and key = "''firm_a''"
      and s = "linkedSession\<lparr>isReady := False, status := Disconnected, qrCode := None,
                        client := None\<rparr>"
      and ?c0.0 = 1 and reason = "''CONFLICT''" and c = 2]
  by (simp add: linkedSession_def freshSession_def onReady_def onSession_def onDisconnected_def
      fireTimer_def initializeClient_def initializeSession_def Let_def)

section \<open>The reaper\<close>

lemma cleanupLoop_registry:
  "fst (cleanupLoop now xs reg es n)
     = filter (\<lambda>(k, s). k \<notin> fst ` {x \<in> set xs. evicts now (snd x)}) reg"
proof (induction xs arbitrary: reg es n)
  case Nil
  then show ?case by simp
next
  case (Cons x xs)
  obtain k s where x: "x = (k, s)" by (cases x)
  show ?case
  proof (cases "evicts now s")
    case True
    have "{y \<in> set (x # xs). evicts now (snd y)} = insert (k, s) {y \<in> set xs. evicts now (snd y)}"
      using True x by auto
    then have "filter (\<lambda>(k', s'). k' \<notin> fst ` {y \<in> set (x # xs). evicts now (snd y)}) reg
        = filter (\<lambda>(k', s'). k' \<notin> fst ` {y \<in> set xs. evicts now (snd y)}) (AList.delete k reg)"
      by (auto simp add: AList.delete_eq intro!: filter_cong)
    with True x show ?thesis by (simp add: Cons.IH)
  next
    case False
    have "{y \<in> set (x # xs). evicts now (snd y)} = {y \<in> set xs. evicts now (snd y)}"
      using False x by auto
    with False x show ?thesis by (simp add: Cons.IH)
  qed
qed

lemma cleanupOldSessions_lookup:
  assumes d: "distinct (map fst reg)" and s: "map_of reg key = Some s"
  shows "map_of (fst (cleanupOldSessions now reg)) key = (if evicts now s then None else Some s)"
proof -
  let ?E = "fst ` {x \<in> set reg. evicts now (snd x)}"
  let ?reg' = "filter (\<lambda>(k, s). k \<notin> ?E) reg"
  have reg': "fst (cleanupOldSessions now reg) = ?reg'"
    using cleanupLoop_registry [of now reg reg "[]" 0]
    by (simp add: cleanupOldSessions_def split_beta)
  from s have mem: "(key, s) \<in> set reg" by (rule map_of_SomeD)
  have only: "s' = s" if "(key, s') \<in> set reg" for s'
    using that d s by simp
  have inE: "key \<in> ?E \<longleftrightarrow> evicts now s"
  proof
    assume "key \<in> ?E"
    then obtain s' where "(key, s') \<in> set reg" "evicts now s'" by auto
    with only show "evicts now s" by blast
  next
    assume "evicts now s"
    with mem show "key \<in> ?E" by force
  qed
  show ?thesis
  proof (cases "evicts now s")
    case True
    have "key \<notin> fst ` set ?reg'"
    proof
      assume "key \<in> fst ` set ?reg'"
      then obtain s' where "(key, s') \<in> set ?reg'" by auto
      then have "key \<notin> ?E" by simp
      with inE True show False by simp
    qed
    then have "map_of ?reg' key = None" by (simp add: map_of_eq_None_iff)
    with True reg' show ?thesis by simp
  next
    case False
    with inE mem have "(key, s) \<in> set ?reg'" by simp
    moreover from d have "distinct (map fst ?reg')" by (rule distinct_map_filter)
    ultimately have "map_of ?reg' key = Some s" by (rule map_of_is_SomeI [rotated])
    with False reg' show ?thesis by simp
  qed
qed

text \<open>
  Claim C6. In a registry with distinct keys, a session whose status is \<open>Ready\<close> (after
  any history from its creation or restoration) is still registered, unchanged, after a
  sweep, whatever the time of the sweep. A persistent session that a sweep removes is
  older than three times the session timeout, not ready and in status \<open>Disconnected\<close>
  at that sweep; and a persistent session in that condition is removed.
\<close>

theorem reaper_spares_ready:
  assumes "distinct (map fst reg)" and "map_of reg key = Some s"
  shows "((s0 = freshSession t f \<or> s0 = restoredSession t f sessionData) \<and> s = applyOps ops s0
            \<and> status s = Ready \<longrightarrow>
          map_of (fst (cleanupOldSessions now reg)) key = Some s)
       \<and> (isPersistent s \<and> map_of (fst (cleanupOldSessions now reg)) key \<noteq> Some s \<longrightarrow>
          now - createdAt s > 3 * SESSION_TIMEOUT \<and> \<not> isReady s \<and> status s = Disconnected)
       \<and> (isPersistent s \<and> now - createdAt s > 3 * SESSION_TIMEOUT \<and> \<not> isReady s
            \<and> status s = Disconnected \<longrightarrow>
          map_of (fst (cleanupOldSessions now reg)) key = None)"
proof -
  note look = cleanupOldSessions_lookup [OF assms, of now]
  have a: "(s0 = freshSession t f \<or> s0 = restoredSession t f sessionData) \<and> s = applyOps ops s0
            \<and> status s = Ready \<longrightarrow>
          map_of (fst (cleanupOldSessions now reg)) key = Some s"
  proof
    assume h: "(s0 = freshSession t f \<or> s0 = restoredSession t f sessionData) \<and> s = applyOps ops s0
            \<and> status s = Ready"
    with created_linked [of s0 t f sessionData ops] have "isReady s \<and> isPersistent s" by blast
    then have "\<not> evicts now s" by (simp add: evicts_def Let_def)
    with look show "map_of (fst (cleanupOldSessions now reg)) key = Some s" by simp
  qed
  have b: "isPersistent s \<and> map_of (fst (cleanupOldSessions now reg)) key \<noteq> Some s \<longrightarrow>
          now - createdAt s > 3 * SESSION_TIMEOUT \<and> \<not> isReady s \<and> status s = Disconnected"
  proof
    assume h: "isPersistent s \<and> map_of (fst (cleanupOldSessions now reg)) key \<noteq> Some s"
    with look have "evicts now s" by (simp split: if_splits)
    with h show "now - createdAt s > 3 * SESSION_TIMEOUT \<and> \<not> isReady s \<and> status s = Disconnected"
      by (simp add: evicts_def Let_def split: if_splits)
  qed
  have c: "isPersistent s \<and> now - createdAt s > 3 * SESSION_TIMEOUT \<and> \<not> isReady s
            \<and> status s = Disconnected \<longrightarrow>
          map_of (fst (cleanupOldSessions now reg)) key = None"
  proof
    assume h: "isPersistent s \<and> now - createdAt s > 3 * SESSION_TIMEOUT \<and> \<not> isReady s
            \<and> status s = Disconnected"
    then have "evicts now s" by (simp add: evicts_def Let_def)
    with look show "map_of (fst (cleanupOldSessions now reg)) key = None" by simp
  qed
  from a b c show ?thesis by blast
qed


lemma linkedSession_eq:
  "linkedSession = (freshSession 0 ''a'')\<lparr>client := Some 1, isReady := True, status := Ready,
      isPersistent := True, lastLinked := Some ''2025-01-01T00:00:00.000Z''\<rparr>"
  by (simp add: linkedSession_def freshSession_def initializeSession_def onReady_def Let_def)

lemma droppedSession_eq:
  "droppedSession = (freshSession 0 ''b'')\<lparr>client := Some 2,
      isPersistent := True, lastLinked := Some ''2025-01-01T00:00:00.000Z''\<rparr>"
  by (simp add: droppedSession_def freshSession_def initializeSession_def onReady_def Let_def
      onDisconnected_def sessionKeyOf_def)

theorem reaper_spares_ready_witness:
  "distinct (map fst [(''firm_a'', linkedSession), (''firm_b'', droppedSession)])
   \<and> map_of [(''firm_a'', linkedSession), (''firm_b'', droppedSession)] ''firm_a'' = Some linkedSession
   \<and> status linkedSession = Ready
   \<and> 3 * SESSION_TIMEOUT < 10000000000 - createdAt linkedSession
   \<and> map_of (fst (cleanupOldSessions 10000000000
         [(''firm_a'', linkedSession), (''firm_b'', droppedSession)])) ''firm_a'' = Some linkedSession
   \<and> map_of [(''firm_a'', linkedSession), (''firm_b'', droppedSession)] ''firm_b'' = Some droppedSession
   \<and> isPersistent droppedSession \<and> \<not> isReady droppedSession \<and> status droppedSession = Disconnected
   \<and> 3 * SESSION_TIMEOUT < 10000000000 - createdAt droppedSession
   \<and> map_of (fst (cleanupOldSessions 10000000000
         [(''firm_a'', linkedSession), (''firm_b'', droppedSession)])) ''firm_b'' = None"
proof -
  let ?reg = "[(''firm_a'', linkedSession), (''firm_b'', droppedSession)]"
  have d: "distinct (map fst ?reg)" by simp
  have a: "map_of ?reg ''firm_a'' = Some linkedSession" by simp
  have b: "map_of ?reg ''firm_b'' = Some droppedSession" by simp
  have ra: "(freshSession 0 ''a'' = freshSession 0 ''a'' \<or> freshSession 0 ''a'' = restoredSession 0 ''a'' restoredExample)
      \<and> linkedSession = applyOps [OpInitialize 1, OpReady ''2025-01-01T00:00:00.000Z''] (freshSession 0 ''a'')
      \<and> status linkedSession = Ready"
    by (simp add: linkedSession_def) (simp add: freshSession_def initializeSession_def onReady_def Let_def)
  have rb: "isPersistent droppedSession \<and> 3 * SESSION_TIMEOUT < 10000000000 - createdAt droppedSession
      \<and> \<not> isReady droppedSession \<and> status droppedSession = Disconnected"
    by (simp add: droppedSession_eq freshSession_def SESSION_TIMEOUT_def)
  have la: "3 * SESSION_TIMEOUT < 10000000000 - createdAt linkedSession"
    by (simp add: linkedSession_eq freshSession_def SESSION_TIMEOUT_def)
  from reaper_spares_ready [OF d a, of "freshSession 0 ''a''" 0 "''a''" restoredExample
      "[OpInitialize 1, OpReady ''2025-01-01T00:00:00.000Z'']" 10000000000] ra
  have "map_of (fst (cleanupOldSessions 10000000000 ?reg)) ''firm_a'' = Some linkedSession"
    by blast
  moreover from reaper_spares_ready [OF d b, of "freshSession 0 ''a''" 0 "''a''" restoredExample
      "[]" 10000000000] rb
  have "map_of (fst (cleanupOldSessions 10000000000 ?reg)) ''firm_b'' = None"
    by blast
  ultimately show ?thesis using d a b ra rb la by simp
qed

section \<open>Resolving a session token\<close>

lemma firmMatch_iff:
  "firmMatch sessionId = Some f
     \<longleftrightarrow> (\<exists>suffix. sessionId = ''firm_'' @ f @ ''_'' @ suffix \<and> f \<noteq> [] \<and> CHR ''_'' \<notin> set f)"
proof
  let ?P = "\<lambda>c. c \<noteq> CHR ''_''"
  let ?rest = "drop 5 sessionId"
  assume m: "firmMatch sessionId = Some f"
  then have pre: "take 5 sessionId = ''firm_''"
    by (simp add: firmMatch_def split: if_splits)
  with m have f: "f = takeWhile ?P ?rest" and ne: "f \<noteq> []" and after: "dropWhile ?P ?rest \<noteq> []"
    by (auto simp add: firmMatch_def Let_def split: if_splits)
  from after have "\<not> ?P (hd (dropWhile ?P ?rest))" by (rule hd_dropWhile)
  with after have "dropWhile ?P ?rest = ''_'' @ tl (dropWhile ?P ?rest)"
    by (cases "dropWhile ?P ?rest") simp_all
  moreover have "?rest = takeWhile ?P ?rest @ dropWhile ?P ?rest" by simp
  ultimately have "?rest = f @ ''_'' @ tl (dropWhile ?P ?rest)" using f by simp
  moreover have "sessionId = take 5 sessionId @ ?rest" by simp
  ultimately have "sessionId = ''firm_'' @ f @ ''_'' @ tl (dropWhile ?P ?rest)"
    using pre by simp
  moreover from f have "CHR ''_'' \<notin> set f" by (auto dest: set_takeWhileD)
  ultimately show "\<exists>suffix. sessionId = ''firm_'' @ f @ ''_'' @ suffix \<and> f \<noteq> [] \<and> CHR ''_'' \<notin> set f"
    using ne by blast
next
  let ?P = "\<lambda>c. c \<noteq> CHR ''_''"
  assume "\<exists>suffix. sessionId = ''firm_'' @ f @ ''_'' @ suffix \<and> f \<noteq> [] \<and> CHR ''_'' \<notin> set f"
  then obtain suffix where eq: "sessionId = ''firm_'' @ f @ ''_'' @ suffix"
    and ne: "f \<noteq> []" and nu: "CHR ''_'' \<notin> set f" by blast
  from nu have all: "\<forall>c \<in> set f. ?P c" by auto
  have d: "drop 5 sessionId = f @ ''_'' @ suffix" and t: "take 5 sessionId = ''firm_''"
    by (simp_all add: eq)
  from all have "takeWhile ?P (f @ ''_'' @ suffix) = f"
    by (simp add: takeWhile_append2)
  moreover from all have "dropWhile ?P (f @ ''_'' @ suffix) = ''_'' @ suffix"
    by (simp add: dropWhile_append2)
  ultimately show "firmMatch sessionId = Some f"
    using ne d t by (simp add: firmMatch_def Let_def)
qed

lemma update_absent: "map_of al k = None \<Longrightarrow> AList.update k v al = al @ [(k, v)]"
  by (induction al) (auto split: if_splits)

lemma getOrCreateSession_absent:
  assumes "f \<noteq> []" and "map_of reg (sessionKeyOf f) = None"
  shows "getOrCreateSession now f reg
    = (Some (freshSession now f), reg @ [(sessionKeyOf f, freshSession now f)])"
proof -
  let ?key = "sessionKeyOf f" and ?new = "freshSession now f"
  let ?reg1 = "AList.update ?key ?new reg"
  have same: "?new\<lparr>lastActivity := now\<rparr> = ?new"
    by (simp add: freshSession_def)
  have reg1: "?reg1 = reg @ [(?key, ?new)]"
    using assms(2) by (rule update_absent)
  have look: "map_of ?reg1 ?key = Some ?new"
    by (simp add: update_conv')
  then have again: "AList.update ?key ?new ?reg1 = ?reg1"
    by (rule update_triv)
  have "getOrCreateSession now f reg = (Some ?new, ?reg1)"
    using assms by (simp add: getOrCreateSession_def Let_def look same again)
  then show ?thesis by (simp only: reg1)
qed

lemma getOrCreateSession_present:
  assumes "f \<noteq> []" and "map_of reg (sessionKeyOf f) = Some s"
  shows "getOrCreateSession now f reg
    = (Some (s\<lparr>lastActivity := now\<rparr>),
       AList.update (sessionKeyOf f) (s\<lparr>lastActivity := now\<rparr>) reg)"
  using assms by (simp add: getOrCreateSession_def Let_def)

lemma update_present_keys:
  "map_of al k = Some v' \<Longrightarrow> map fst (AList.update k v al) = map fst al"
  by (simp add: update_keys) (metis domI dom_map_of_conv_image_fst image_set)


lemma firmMatch_nonempty: "firmMatch sessionId = Some f \<Longrightarrow> f \<noteq> []"
  by (auto simp add: firmMatch_iff)

lemma getSession_registered:
  assumes m: "firmMatch sessionId = Some f"
  shows "\<exists>s1 reg1. getSession now sessionId reg = (Some s1, reg1)
           \<and> map_of reg1 (sessionKeyOf f) = Some s1 \<and> lastActivity s1 = now"
proof (cases "map_of reg (sessionKeyOf f)")
  case None
  have "lastActivity (freshSession now f) = now" by (simp add: freshSession_def)
  moreover have "map_of (reg @ [(sessionKeyOf f, freshSession now f)]) (sessionKeyOf f)
      = Some (freshSession now f)"
    using None by (simp add: map_add_def)
  ultimately show ?thesis
    using getOrCreateSession_absent [OF firmMatch_nonempty [OF m] None, of now] m
    by (simp add: getSession_def)
next
  case (Some s)
  from getOrCreateSession_present [OF firmMatch_nonempty [OF m] Some, of now] m
  show ?thesis by (simp add: getSession_def update_conv')
qed

text \<open>
  Claim C7. A token resolves to the tenant \<open>f\<close> exactly when it is \<^verbatim>\<open>firm_\<close>, then \<open>f\<close>
  (not empty, no underscore), then an underscore and any suffix; any other token resolves
  to not found and leaves the registry as it is. For a tenant with no session yet a fresh
  one is registered last (status \<open>Disconnected\<close>, empty queue, not persistent, last
  activity now); for a tenant with a session that session is returned with its last
  activity refreshed and no key is added. Resolving a valid token a second time returns the
  session the first call registered, with only its last activity refreshed, and adds no
  session.
\<close>

theorem getSession_idempotent:
  "(firmMatch sessionId = Some f
      \<longleftrightarrow> (\<exists>suffix. sessionId = ''firm_'' @ f @ ''_'' @ suffix \<and> f \<noteq> [] \<and> CHR ''_'' \<notin> set f))
   \<and> (\<not> (\<exists>f suffix. sessionId = ''firm_'' @ f @ ''_'' @ suffix \<and> f \<noteq> [] \<and> CHR ''_'' \<notin> set f)
        \<longrightarrow> getSession now sessionId reg = (None, reg))
   \<and> (firmMatch sessionId = Some f \<and> map_of reg (sessionKeyOf f) = None \<longrightarrow>
        getSession now sessionId reg
          = (Some (freshSession now f), reg @ [(sessionKeyOf f, freshSession now f)])
        \<and> status (freshSession now f) = Disconnected \<and> messageQueue (freshSession now f) = []
        \<and> \<not> isPersistent (freshSession now f) \<and> lastActivity (freshSession now f) = now)
   \<and> (firmMatch sessionId = Some f \<and> map_of reg (sessionKeyOf f) = Some s \<longrightarrow>
        getSession now sessionId reg
          = (Some (s\<lparr>lastActivity := now\<rparr>),
             AList.update (sessionKeyOf f) (s\<lparr>lastActivity := now\<rparr>) reg)
        \<and> map fst (AList.update (sessionKeyOf f) (s\<lparr>lastActivity := now\<rparr>) reg) = map fst reg)
   \<and> (firmMatch sessionId = Some f \<longrightarrow>
        (\<exists>s1 reg1 reg2.
           getSession now sessionId reg = (Some s1, reg1)
           \<and> map_of reg1 (sessionKeyOf f) = Some s1 \<and> lastActivity s1 = now
           \<and> getSession now' sessionId reg1 = (Some (s1\<lparr>lastActivity := now'\<rparr>), reg2)
           \<and> map fst reg2 = map fst reg1
           \<and> map_of reg2 = (map_of reg1)(sessionKeyOf f \<mapsto> s1\<lparr>lastActivity := now'\<rparr>)))"
proof -
  have a: "firmMatch sessionId = Some f
      \<longleftrightarrow> (\<exists>suffix. sessionId = ''firm_'' @ f @ ''_'' @ suffix \<and> f \<noteq> [] \<and> CHR ''_'' \<notin> set f)"
    by (rule firmMatch_iff)
  have b: "\<not> (\<exists>f suffix. sessionId = ''firm_'' @ f @ ''_'' @ suffix \<and> f \<noteq> [] \<and> CHR ''_'' \<notin> set f)
        \<longrightarrow> getSession now sessionId reg = (None, reg)"
  proof
    assume "\<not> (\<exists>f suffix. sessionId = ''firm_'' @ f @ ''_'' @ suffix \<and> f \<noteq> [] \<and> CHR ''_'' \<notin> set f)"
    then have "\<forall>f. firmMatch sessionId \<noteq> Some f" by (simp add: firmMatch_iff)
    then have "firmMatch sessionId = None" by (cases "firmMatch sessionId") simp_all
    then show "getSession now sessionId reg = (None, reg)" by (simp add: getSession_def)
  qed
  have c: "firmMatch sessionId = Some f \<and> map_of reg (sessionKeyOf f) = None \<longrightarrow>
        getSession now sessionId reg
          = (Some (freshSession now f), reg @ [(sessionKeyOf f, freshSession now f)])
        \<and> status (freshSession now f) = Disconnected \<and> messageQueue (freshSession now f) = []
        \<and> \<not> isPersistent (freshSession now f) \<and> lastActivity (freshSession now f) = now"
  proof
    assume h: "firmMatch sessionId = Some f \<and> map_of reg (sessionKeyOf f) = None"
    then have "f \<noteq> []" using firmMatch_nonempty by blast
    from getOrCreateSession_absent [OF this, of reg now] h
    show "getSession now sessionId reg
          = (Some (freshSession now f), reg @ [(sessionKeyOf f, freshSession now f)])
        \<and> status (freshSession now f) = Disconnected \<and> messageQueue (freshSession now f) = []
        \<and> \<not> isPersistent (freshSession now f) \<and> lastActivity (freshSession now f) = now"
      by (simp add: getSession_def) (simp add: freshSession_def)
  qed
  have d: "firmMatch sessionId = Some f \<and> map_of reg (sessionKeyOf f) = Some s \<longrightarrow>
        getSession now sessionId reg
          = (Some (s\<lparr>lastActivity := now\<rparr>),
             AList.update (sessionKeyOf f) (s\<lparr>lastActivity := now\<rparr>) reg)
        \<and> map fst (AList.update (sessionKeyOf f) (s\<lparr>lastActivity := now\<rparr>) reg) = map fst reg"
  proof
    assume h: "firmMatch sessionId = Some f \<and> map_of reg (sessionKeyOf f) = Some s"
    then have "f \<noteq> []" using firmMatch_nonempty by blast
    from getOrCreateSession_present [OF this, of reg s now] h update_present_keys [of reg "sessionKeyOf f" s]
    show "getSession now sessionId reg
          = (Some (s\<lparr>lastActivity := now\<rparr>),
             AList.update (sessionKeyOf f) (s\<lparr>lastActivity := now\<rparr>) reg)
        \<and> map fst (AList.update (sessionKeyOf f) (s\<lparr>lastActivity := now\<rparr>) reg) = map fst reg"
      by (simp add: getSession_def)
  qed
  have e: "firmMatch sessionId = Some f \<longrightarrow>
        (\<exists>s1 reg1 reg2.
           getSession now sessionId reg = (Some s1, reg1)
           \<and> map_of reg1 (sessionKeyOf f) = Some s1 \<and> lastActivity s1 = now
           \<and> getSession now' sessionId reg1 = (Some (s1\<lparr>lastActivity := now'\<rparr>), reg2)
           \<and> map fst reg2 = map fst reg1
           \<and> map_of reg2 = (map_of reg1)(sessionKeyOf f \<mapsto> s1\<lparr>lastActivity := now'\<rparr>))"
  proof
    assume m: "firmMatch sessionId = Some f"
    from getSession_registered [OF m, of now reg] obtain s1 reg1
      where g1: "getSession now sessionId reg = (Some s1, reg1)"
        and l1: "map_of reg1 (sessionKeyOf f) = Some s1" and t1: "lastActivity s1 = now" by blast
    let ?s2 = "s1\<lparr>lastActivity := now'\<rparr>"
    let ?reg2 = "AList.update (sessionKeyOf f) ?s2 reg1"
    from getOrCreateSession_present [OF firmMatch_nonempty [OF m] l1, of now'] m
    have g2: "getSession now' sessionId reg1 = (Some ?s2, ?reg2)" by (simp add: getSession_def)
    have k: "map fst ?reg2 = map fst reg1" using l1 by (rule update_present_keys)
    have mp: "map_of ?reg2 = (map_of reg1)(sessionKeyOf f \<mapsto> ?s2)" by (rule update_conv')
    from g1 l1 t1 g2 k mp
    show "\<exists>s1 reg1 reg2.
           getSession now sessionId reg = (Some s1, reg1)
           \<and> map_of reg1 (sessionKeyOf f) = Some s1 \<and> lastActivity s1 = now
           \<and> getSession now' sessionId reg1 = (Some (s1\<lparr>lastActivity := now'\<rparr>), reg2)
           \<and> map fst reg2 = map fst reg1
           \<and> map_of reg2 = (map_of reg1)(sessionKeyOf f \<mapsto> s1\<lparr>lastActivity := now'\<rparr>)"
      by blast
  qed
  from a b c d e show ?thesis by blast
qed

theorem getSession_idempotent_witness:
  "firmMatch ''firm_abc_1700000000_x9'' = Some ''abc''
   \<and> map_of [] (sessionKeyOf ''abc'') = (None :: session option)
   \<and> getSession 10 ''firm_abc_1700000000_x9'' []
       = (Some (freshSession 10 ''abc''), [(''firm_abc'', freshSession 10 ''abc'')])
   \<and> map_of [(''firm_abc'', freshSession 10 ''abc'')] (sessionKeyOf ''abc'')
       = Some (freshSession 10 ''abc'')
   \<and> getSession 20 ''firm_abc_1700000000_x9'' [(''firm_abc'', freshSession 10 ''abc'')]
       = (Some ((freshSession 10 ''abc'')\<lparr>lastActivity := 20\<rparr>),
          [(''firm_abc'', (freshSession 10 ''abc'')\<lparr>lastActivity := 20\<rparr>)])
   \<and> getSession 10 ''firm_abc'' [] = (None, [])
   \<and> getSession 10 ''session_abc_1'' [] = (None, [])"
  using getSession_idempotent [of "''firm_abc_1700000000_x9''" "''abc''" 10 "[]" "freshSession 10 ''abc''" 20]
    getSession_idempotent [of "''firm_abc_1700000000_x9''" "''abc''" 20
      "[(''firm_abc'', freshSession 10 ''abc'')]" "freshSession 10 ''abc''" 20]
  by (simp add: firmMatch_def sessionKeyOf_def getSession_def Let_def)

section \<open>Permanent disconnect\<close>

lemma disconnectSession_fields:
  "qrCode (fst (disconnectSession throws s)) = None"
  "\<not> isReady (fst (disconnectSession throws s))"
  "messageQueue (fst (disconnectSession throws s)) = []"
  "\<not> isPersistent (fst (disconnectSession throws s))"
  "lastLinked (fst (disconnectSession throws s)) = None"
  "status (fst (disconnectSession throws s)) = ManuallyDisconnected"
  "firmId (fst (disconnectSession throws s)) = firmId s"
  by (simp_all add: disconnectSession_def Let_def split: option.split)

lemma disconnectSession_calls:
  "snd (disconnectSession throws s)
     = (case client s of
          None \<Rightarrow> []
        | Some c \<Rightarrow> if throws (ClientLogout c) then [ClientLogout c]
                    else [ClientLogout c, ClientDestroy c])"
  "client s = Some c \<Longrightarrow> \<not> throws (ClientLogout c) \<Longrightarrow> \<not> throws (ClientDestroy c) \<Longrightarrow>
     client (fst (disconnectSession throws s)) = None"
  by (simp_all add: disconnectSession_def Let_def split: option.split)

lemma apiDisconnect_unfold:
  assumes m: "firmMatch sessionId = Some f"
    and g: "getSession now sessionId reg = (Some s1, reg1)"
  shows "apiDisconnect now throws sessionId reg
    = (AList.update (sessionKeyOf f) (fst (disconnectSession throws s1)) reg1,
       snd (disconnectSession throws s1)
         @ [WriteFile (persistedData
              (AList.update (sessionKeyOf f) (fst (disconnectSession throws s1)) reg1) [])])"
  using assms
  by (simp add: apiDisconnect_def getSession_def Let_def split_beta savePersistedSessions_def)

text \<open>
  Claim C8. In a registry as the service builds it, the disconnect route for a valid
  token leaves the tenant's session with no QR payload, not ready, an empty queue, not
  persistent, \<open>lastLinked\<close> null and status \<open>ManuallyDisconnected\<close>. Its calls on the
  client, if any, are a logout and then a destroy (the destroy never without the logout
  before it; both, and the client set to null, when the session had a client and neither
  call throws). It ends with a save, and the data saved has no record for the tenant.
\<close>

theorem apiDisconnect_unlinks:
  assumes ok: "registryOk reg" and m: "firmMatch sessionId = Some f"
  shows "\<exists>s' reg' es d.
      apiDisconnect now throws sessionId reg = (reg', es @ [WriteFile d])
      \<and> map_of reg' (sessionKeyOf f) = Some s'
      \<and> qrCode s' = None \<and> \<not> isReady s' \<and> messageQueue s' = []
      \<and> \<not> isPersistent s' \<and> lastLinked s' = None \<and> status s' = ManuallyDisconnected
      \<and> d = persistedData reg' [] \<and> map_of d f = None
      \<and> (es = [] \<or> (\<exists>c. es = [ClientLogout c] \<or> es = [ClientLogout c, ClientDestroy c]))
      \<and> (\<forall>s c. map_of reg (sessionKeyOf f) = Some s \<and> client s = Some c
               \<and> \<not> throws (ClientLogout c) \<and> \<not> throws (ClientDestroy c)
             \<longrightarrow> es = [ClientLogout c, ClientDestroy c] \<and> client s' = None)"
proof -
  let ?key = "sessionKeyOf f"
  from getSession_registered [OF m, of now reg] obtain s1 reg1
    where g: "getSession now sessionId reg = (Some s1, reg1)"
      and l1: "map_of reg1 ?key = Some s1" by blast
  let ?s' = "fst (disconnectSession throws s1)" and ?es = "snd (disconnectSession throws s1)"
  let ?reg' = "AList.update ?key ?s' reg1"
  let ?d = "persistedData ?reg' []"
  from g m have reg1: "reg1 = snd (getOrCreateSession now f reg)"
    by (simp add: getSession_def)
  have ok1: "registryOk reg1" unfolding reg1 using ok by (rule registryOk_getOrCreateSession)
  from l1 have "(?key, s1) \<in> set reg1" by (rule map_of_SomeD)
  from registryOk_entry [OF ok1 this] have f1: "firmId s1 = f" by (simp add: sessionKeyOf_inj)
  then have key: "?key = sessionKeyOf (firmId ?s')" by (simp add: disconnectSession_fields)
  have api: "apiDisconnect now throws sessionId reg = (?reg', ?es @ [WriteFile ?d])"
    using m g by (rule apiDisconnect_unfold)
  have look: "map_of ?reg' ?key = Some ?s'" by (simp add: update_conv')
  have np: "\<not> (isPersistent s \<and> truthy (lastLinked s))"
    if mem: "(k, s) \<in> set ?reg'" and fs: "firmId s = f" for k s
  proof -
    from fs f1 have "firmId s = firmId ?s'" by (simp add: disconnectSession_fields)
    with registryOk_update(2) [OF ok1 key] mem have "s = ?s'" by blast
    then show ?thesis by (simp add: disconnectSession_fields)
  qed
  have absent: "map_of ?d f = None"
    by (rule persistedData_absent) (use np in blast)
  have calls: "?es = [] \<or> (\<exists>c. ?es = [ClientLogout c] \<or> ?es = [ClientLogout c, ClientDestroy c])"
    by (simp add: disconnectSession_calls(1) split: option.split)
  have live: "\<forall>s c. map_of reg ?key = Some s \<and> client s = Some c
               \<and> \<not> throws (ClientLogout c) \<and> \<not> throws (ClientDestroy c)
             \<longrightarrow> ?es = [ClientLogout c, ClientDestroy c] \<and> client ?s' = None"
  proof (intro allI impI)
    fix s c
    assume h: "map_of reg ?key = Some s \<and> client s = Some c
               \<and> \<not> throws (ClientLogout c) \<and> \<not> throws (ClientDestroy c)"
    from getOrCreateSession_present [OF firmMatch_nonempty [OF m], of reg s now] h g m
    have "s1 = s\<lparr>lastActivity := now\<rparr>" by (simp add: getSession_def)
    with h have c1: "client s1 = Some c" by simp
    with h show "?es = [ClientLogout c, ClientDestroy c] \<and> client ?s' = None"
      by (simp add: disconnectSession_calls)
  qed
  from api look absent calls live show ?thesis
    by (simp add: disconnectSession_fields)
qed


theorem apiDisconnect_unlinks_witness:
  "registryOk [(''firm_a'', linkedSession)]
   \<and> firmMatch ''firm_a_1700000000_x9'' = Some ''a''
   \<and> map_of (persistedData [(''firm_a'', linkedSession)] []) ''a''
       = Some (persistedRecordOf linkedSession)
   \<and> apiDisconnect 50 (\<lambda>e. False) ''firm_a_1700000000_x9'' [(''firm_a'', linkedSession)]
       = ([(''firm_a'',
            linkedSession\<lparr>lastActivity := 50, qrCode := None, isReady := False,
              status := ManuallyDisconnected, messageQueue := [], isPersistent := False,
              lastLinked := None, client := None\<rparr>)],
          [ClientLogout 1, ClientDestroy 1, WriteFile []])"
  using apiDisconnect_unlinks [of "[(''firm_a'', linkedSession)]" "''firm_a_1700000000_x9''"
      "''a''" 50 "\<lambda>e. False"]
  by (simp add: registryOk_def firmMatch_def sessionKeyOf_def linkedSession_eq freshSession_def
      apiDisconnect_def getOrCreateSession_def disconnectSession_def savePersistedSessions_def
      setProperty_def truthy_def Let_def)

section \<open>The drain loop over a batch\<close>

lemma trySend_snd: "snd (trySend send i s m) = sendAttempt s m"
  by (simp add: trySend_def sendAttempt_def Let_def split: option.split)

lemma trySend_client:
  "client s' = client s \<Longrightarrow> trySend send i s' m = trySend send i s m"
  by (simp add: trySend_def)

lemma sendAttempt_client: "client s' = client s \<Longrightarrow> sendAttempt s' m = sendAttempt s m"
  by (simp add: sendAttempt_def)

lemma rateLimited_client:
  "client s' = client s \<Longrightarrow> rateLimited send i s' m = rateLimited send i s m"
  by (simp add: rateLimited_def trySend_def)

lemma attempts_client:
  "client s' = client s \<Longrightarrow> attempts send i s' ms = attempts send i s ms"
  by (induction ms arbitrary: i) (simp_all add: trySend_def sendAttempt_def)

lemma attempts_append:
  "attempts send i s (xs @ ys) = attempts send i s xs @ attempts send (i + length xs) s ys"
  by (induction xs arbitrary: i) simp_all

lemma nullClientError_not_rate: "\<not> isRateLimit nullClientError"
  by (simp add: nullClientError_def isRateLimit_def startsWith_def)

lemma rateLimited_no_client: "client s = None \<Longrightarrow> \<not> rateLimited send i s m"
  by (simp add: rateLimited_def trySend_def nullClientError_not_rate)

text \<open>One iteration that does not end the batch.\<close>

lemma drainLoop_next:
  assumes "i < bs" "isReady s" "messageQueue s = m # rest" "\<not> rateLimited send i s m"
  shows "drainLoop send bs i s es
    = drainLoop send bs (Suc i) (s\<lparr>messageQueue := rest\<rparr>) (es @ attempts send i s [m])"
proof -
  let ?s1 = "s\<lparr>messageQueue := rest\<rparr>"
  have ts: "trySend send i ?s1 m = trySend send i s m" by (rule trySend_client) simp
  obtain r sent where t: "trySend send i s m = (r, sent)" by (cases "trySend send i s m")
  then have sent: "sent = sendAttempt s m" using trySend_snd [of send i s m] by simp
  show ?thesis
  proof (cases r)
    case Sent
    with drainLoop_sent [OF assms(1-3), of send sent es] ts t sent show ?thesis by simp
  next
    case (SendError e)
    with assms(4) t have "\<not> isRateLimit e" by (simp add: rateLimited_def)
    with drainLoop_dropped [OF assms(1-3), of send e sent es] ts t sent SendError
    show ?thesis by simp
  qed
qed

lemma drainLoop_requeue:
  assumes "i < bs" "isReady s" "messageQueue s = m # rest" "rateLimited send i s m"
  shows "drainLoop send bs i s es = (s, es @ sendAttempt s m @ [Sleep 10000], Completed)"
proof -
  let ?s1 = "s\<lparr>messageQueue := rest\<rparr>"
  have ts: "trySend send i ?s1 m = trySend send i s m" by (rule trySend_client) simp
  obtain r sent where t: "trySend send i s m = (r, sent)" by (cases "trySend send i s m")
  then have sent: "sent = sendAttempt s m" using trySend_snd [of send i s m] by simp
  from assms(4) t obtain e where r: "r = SendError e" and e: "isRateLimit e"
    by (cases r) (simp_all add: rateLimited_def)
  from drainLoop_rate_limited [OF assms(1-3), of send e sent es] ts t r e sent
  show ?thesis by simp
qed

lemma drainLoop_prefix:
  "isReady s \<Longrightarrow> messageQueue s = pre @ post \<Longrightarrow> i + length pre \<le> bs \<Longrightarrow>
   \<forall>j < length pre. \<not> rateLimited send (i + j) s (pre ! j) \<Longrightarrow>
   drainLoop send bs i s es
     = drainLoop send bs (i + length pre) (s\<lparr>messageQueue := post\<rparr>) (es @ attempts send i s pre)"
proof (induction pre arbitrary: i s es)
  case Nil
  from Nil.prems(2) have "s\<lparr>messageQueue := post\<rparr> = s" by simp
  then show ?case by simp
next
  case (Cons m pre)
  let ?s1 = "s\<lparr>messageQueue := pre @ post\<rparr>"
  from Cons.prems(3) have lt: "i < bs" and le: "Suc i + length pre \<le> bs" by simp_all
  from Cons.prems(2) have q: "messageQueue s = m # (pre @ post)" by simp
  have "0 < length (m # pre)" by simp
  with Cons.prems(4) have "\<not> rateLimited send (i + 0) s ((m # pre) ! 0)" by blast
  then have nr: "\<not> rateLimited send i s m" by simp
  have rest: "\<forall>j < length pre. \<not> rateLimited send (Suc i + j) ?s1 (pre ! j)"
  proof (intro allI impI)
    fix j assume "j < length pre"
    then have "Suc j < length (m # pre)" by simp
    with Cons.prems(4) have "\<not> rateLimited send (i + Suc j) s ((m # pre) ! Suc j)" by blast
    then have "\<not> rateLimited send (Suc i + j) s (pre ! j)" by simp
    moreover have "rateLimited send (Suc i + j) ?s1 (pre ! j) = rateLimited send (Suc i + j) s (pre ! j)"
      by (rule rateLimited_client) simp
    ultimately show "\<not> rateLimited send (Suc i + j) ?s1 (pre ! j)" by simp
  qed
  have r1: "isReady ?s1" using Cons.prems(1) by simp
  have q1: "messageQueue ?s1 = pre @ post" by simp
  have step: "drainLoop send bs i s es = drainLoop send bs (Suc i) ?s1 (es @ attempts send i s [m])"
    using lt Cons.prems(1) q nr by (rule drainLoop_next)
  have ih: "drainLoop send bs (Suc i) ?s1 (es @ attempts send i s [m])
      = drainLoop send bs (Suc i + length pre) (?s1\<lparr>messageQueue := post\<rparr>)
          ((es @ attempts send i s [m]) @ attempts send (Suc i) ?s1 pre)"
    using r1 q1 le rest by (rule Cons.IH)
  have at: "attempts send (Suc i) ?s1 pre = attempts send (Suc i) s pre"
    by (rule attempts_client) simp
  have s2: "?s1\<lparr>messageQueue := post\<rparr> = s\<lparr>messageQueue := post\<rparr>" by simp
  have ix: "Suc i + length pre = i + length (m # pre)" by simp
  have ef: "(es @ attempts send i s [m]) @ attempts send (Suc i) s pre
      = es @ attempts send i s (m # pre)" by simp
  from step ih show ?case by (simp only: at s2 ix ef)
qed


lemma filter_sendAttempt: "filter isSendMessage (sendAttempt s m) = sendAttempt s m"
  by (simp add: sendAttempt_def isSendMessage_def split: option.split)

lemma filter_attempts:
  "filter isSendMessage (attempts send i s ms) = concat (map (sendAttempt s) ms)"
  by (induction ms arbitrary: i)
    (simp_all add: filter_sendAttempt isSendMessage_def split: send_result.split)

lemma drainLoop_shape:
  "bs \<le> i + length (messageQueue s) \<Longrightarrow>
   \<exists>k n es'. drainLoop send bs i s es
       = (s\<lparr>messageQueue := drop k (messageQueue s)\<rparr>, es @ es', Completed)
     \<and> k \<le> n \<and> n \<le> bs - i \<and> (i < bs \<and> isReady s \<longrightarrow> 1 \<le> n) \<and> (client s = None \<longrightarrow> k = n)
     \<and> filter isSendMessage es' = concat (map (sendAttempt s) (take n (messageQueue s)))"
proof (induction "bs - i" arbitrary: i s es)
  case 0
  then have "\<not> (i < bs \<and> isReady s)" by simp
  from drainLoop_stop [OF this, of send es]
  have "drainLoop send bs i s es = (s\<lparr>messageQueue := drop 0 (messageQueue s)\<rparr>, es @ [], Completed)"
    by simp
  moreover have "filter isSendMessage [] = concat (map (sendAttempt s) (take 0 (messageQueue s)))"
    by simp
  ultimately show ?case using 0 by (intro exI [of _ 0] exI [of _ "[]"]) simp
next
  case (Suc d)
  show ?case
  proof (cases "i < bs \<and> isReady s")
    case False
    from drainLoop_stop [OF this, of send es]
    have "drainLoop send bs i s es = (s\<lparr>messageQueue := drop 0 (messageQueue s)\<rparr>, es @ [], Completed)"
      by simp
    moreover have "filter isSendMessage [] = concat (map (sendAttempt s) (take 0 (messageQueue s)))"
      by simp
    ultimately show ?thesis using False by (intro exI [of _ 0] exI [of _ "[]"]) simp
  next
    case True
    then have lt: "i < bs" and rdy: "isReady s" by simp_all
    from lt Suc.prems obtain m rest where q: "messageQueue s = m # rest"
      by (cases "messageQueue s") simp_all
    show ?thesis
    proof (cases "rateLimited send i s m")
      case rl: True
      then have cl: "client s \<noteq> None" using rateLimited_no_client by blast
      from q have "s\<lparr>messageQueue := drop 0 (messageQueue s)\<rparr> = s" by simp
      with drainLoop_requeue [OF lt rdy q rl, of es]
      have "drainLoop send bs i s es
          = (s\<lparr>messageQueue := drop 0 (messageQueue s)\<rparr>,
             es @ (sendAttempt s m @ [Sleep 10000]), Completed)" by simp
      moreover have "filter isSendMessage (sendAttempt s m @ [Sleep 10000])
          = concat (map (sendAttempt s) (take 1 (messageQueue s)))"
        by (simp add: q filter_sendAttempt isSendMessage_def)
      moreover have "(0::nat) \<le> 1" "1 \<le> bs - i" using lt by simp_all
      ultimately show ?thesis using cl
        by (intro exI [of _ 0] exI [of _ 1] exI [of _ "sendAttempt s m @ [Sleep 10000]"]) simp
    next
      case nr: False
      let ?s1 = "s\<lparr>messageQueue := rest\<rparr>"
      from Suc.hyps(2) lt have d: "d = bs - Suc i" by simp
      from Suc.prems q have le: "bs \<le> Suc i + length (messageQueue ?s1)" by simp
      from Suc.hyps(1) [OF d le, of "es @ attempts send i s [m]"]
      obtain k n es' where
        run: "drainLoop send bs (Suc i) ?s1 (es @ attempts send i s [m])
            = (?s1\<lparr>messageQueue := drop k (messageQueue ?s1)\<rparr>,
               (es @ attempts send i s [m]) @ es', Completed)"
        and kn: "k \<le> n" and nb: "n \<le> bs - Suc i"
        and nc: "client ?s1 = None \<longrightarrow> k = n"
        and fl: "filter isSendMessage es' = concat (map (sendAttempt ?s1) (take n (messageQueue ?s1)))"
        by (elim exE conjE) (rule that, assumption+)
      have sa: "sendAttempt ?s1 = sendAttempt s"
        by (rule ext) (simp add: sendAttempt_def)
      have "drainLoop send bs i s es
          = (s\<lparr>messageQueue := drop (Suc k) (messageQueue s)\<rparr>,
             es @ (attempts send i s [m] @ es'), Completed)"
        using drainLoop_next [OF lt rdy q nr, of es] run by (simp add: q)
      moreover have "filter isSendMessage (attempts send i s [m] @ es')
          = concat (map (sendAttempt s) (take (Suc n) (messageQueue s)))"
        using fl by (simp only: filter_append filter_attempts sa q) simp
      moreover have "Suc k \<le> Suc n" "Suc n \<le> bs - i" "1 \<le> Suc n" using kn nb lt by simp_all
      moreover have "client s = None \<longrightarrow> Suc k = Suc n" using nc by simp
      ultimately show ?thesis
        by (intro exI [of _ "Suc k"] exI [of _ "Suc n"] exI [of _ "attempts send i s [m] @ es'"])
          simp
    qed
  qed
qed

section \<open>A whole drain\<close>

lemma drainSession_run:
  assumes g: "\<not> isProcessingQueue s" "messageQueue s \<noteq> []" "isReady s"
    and run: "drainLoop send (min 5 (length (messageQueue s))) 0 (s\<lparr>isProcessingQueue := True\<rparr>) []
        = (s\<lparr>isProcessingQueue := True, messageQueue := q'\<rparr>, es, Completed)"
  shows "drainSession send s = (s\<lparr>messageQueue := q'\<rparr>, es)"
proof -
  from g(1) have "s\<lparr>isProcessingQueue := True, messageQueue := q', isProcessingQueue := False\<rparr>
      = s\<lparr>messageQueue := q'\<rparr>" by simp
  with g run show ?thesis by (simp add: drainSession_def Let_def)
qed

lemma drainSession_requeue:
  assumes g: "\<not> isProcessingQueue s" "isReady s"
    and q: "messageQueue s = pre @ m # post" and len: "length pre < 5"
    and nr: "\<forall>j < length pre. \<not> rateLimited send j s (pre ! j)"
    and rl: "rateLimited send (length pre) s m"
  shows "drainSession send s
    = (s\<lparr>messageQueue := m # post\<rparr>, attempts send 0 s pre @ sendAttempt s m @ [Sleep 10000])"
proof -
  let ?s0 = "s\<lparr>isProcessingQueue := True\<rparr>"
  let ?bs = "min 5 (length (messageQueue s))"
  let ?s1 = "?s0\<lparr>messageQueue := m # post\<rparr>"
  have c0: "client ?s0 = client s" by simp
  from q len have lt: "length pre < ?bs" by simp
  have nr0: "\<forall>j < length pre. \<not> rateLimited send (0 + j) ?s0 (pre ! j)"
    using nr by (simp add: rateLimited_client [OF c0])
  have "drainLoop send ?bs 0 ?s0 []
      = drainLoop send ?bs (0 + length pre) ?s1 ([] @ attempts send 0 ?s0 pre)"
    using lt nr0 by (intro drainLoop_prefix) (simp_all add: g q)
  also have "\<dots> = drainLoop send ?bs (length pre) ?s1 (attempts send 0 s pre)"
    by (simp add: attempts_client [OF c0])
  also have "\<dots> = (?s1, attempts send 0 s pre @ sendAttempt ?s1 m @ [Sleep 10000], Completed)"
  proof (rule drainLoop_requeue [OF lt])
    show "isReady ?s1" using g by simp
    show "messageQueue ?s1 = m # post" by simp
    show "rateLimited send (length pre) ?s1 m" using rl by (simp add: rateLimited_def trySend_def)
  qed
  also have "sendAttempt ?s1 m = sendAttempt s m" by (simp add: sendAttempt_def)
  finally have "drainLoop send ?bs 0 ?s0 []
      = (s\<lparr>isProcessingQueue := True, messageQueue := m # post\<rparr>,
         attempts send 0 s pre @ sendAttempt s m @ [Sleep 10000], Completed)" .
  with g q show ?thesis by (intro drainSession_run) simp_all
qed

lemma drainSession_batch:
  assumes g: "\<not> isProcessingQueue s" "messageQueue s \<noteq> []" "isReady s"
    and nr: "\<forall>j < min 5 (length (messageQueue s)). \<not> rateLimited send j s (messageQueue s ! j)"
  shows "drainSession send s
    = (s\<lparr>messageQueue := drop 5 (messageQueue s)\<rparr>, attempts send 0 s (take 5 (messageQueue s)))"
proof -
  let ?s0 = "s\<lparr>isProcessingQueue := True\<rparr>"
  let ?q = "messageQueue s"
  let ?bs = "min 5 (length ?q)"
  let ?s1 = "?s0\<lparr>messageQueue := drop 5 ?q\<rparr>"
  have c0: "client ?s0 = client s" by simp
  have len: "length (take 5 ?q) = ?bs" by simp
  have nr0: "\<forall>j < length (take 5 ?q). \<not> rateLimited send (0 + j) ?s0 (take 5 ?q ! j)"
    using nr by (simp add: rateLimited_client [OF c0])
  have "drainLoop send ?bs 0 ?s0 []
      = drainLoop send ?bs (0 + length (take 5 ?q)) ?s1 ([] @ attempts send 0 ?s0 (take 5 ?q))"
    using nr0 by (intro drainLoop_prefix) (simp_all add: g)
  also have "\<dots> = drainLoop send ?bs ?bs ?s1 (attempts send 0 s (take 5 ?q))"
    by (simp add: attempts_client [OF c0] min.commute)
  also have "\<dots> = (?s1, attempts send 0 s (take 5 ?q), Completed)"
    by (rule drainLoop_stop) simp
  finally have "drainLoop send ?bs 0 ?s0 []
      = (s\<lparr>isProcessingQueue := True, messageQueue := drop 5 ?q\<rparr>,
         attempts send 0 s (take 5 ?q), Completed)" .
  with g show ?thesis by (intro drainSession_run) simp_all
qed


lemma drainLoop_first:
  assumes lt: "i < bs" and rdy: "isReady s" and q: "messageQueue s = m # rest"
    and le: "bs \<le> i + length (messageQueue s)"
  shows "\<exists>k es'. drainLoop send bs i s es
      = (s\<lparr>messageQueue := drop k (messageQueue s)\<rparr>, es @ sendAttempt s m @ es', Completed)"
proof (cases "rateLimited send i s m")
  case True
  from q have "s\<lparr>messageQueue := drop 0 (messageQueue s)\<rparr> = s" by simp
  with drainLoop_requeue [OF lt rdy q True, of es]
  have "drainLoop send bs i s es
      = (s\<lparr>messageQueue := drop 0 (messageQueue s)\<rparr>, es @ sendAttempt s m @ [Sleep 10000], Completed)"
    by simp
  then show ?thesis by blast
next
  case False
  let ?s1 = "s\<lparr>messageQueue := rest\<rparr>"
  let ?pause = "case fst (trySend send i s m) of Sent \<Rightarrow> [Sleep 3000] | SendError e \<Rightarrow> []"
  from le q have "bs \<le> Suc i + length (messageQueue ?s1)" by simp
  from drainLoop_shape [OF this, of send "es @ attempts send i s [m]"]
  obtain k es' where
    run: "drainLoop send bs (Suc i) ?s1 (es @ attempts send i s [m])
        = (?s1\<lparr>messageQueue := drop k (messageQueue ?s1)\<rparr>,
           (es @ attempts send i s [m]) @ es', Completed)"
    by (elim exE conjE) (rule that, assumption)
  have "drainLoop send bs i s es
      = (s\<lparr>messageQueue := drop (Suc k) (messageQueue s)\<rparr>,
         es @ sendAttempt s m @ (?pause @ es'), Completed)"
    using drainLoop_next [OF lt rdy q False, of es] run by (simp add: q)
  then show ?thesis by blast
qed

lemma drainSession_shape:
  assumes g: "\<not> isProcessingQueue s" "messageQueue s \<noteq> []" "isReady s"
  shows "\<exists>k n es. drainSession send s = (s\<lparr>messageQueue := drop k (messageQueue s)\<rparr>, es)
      \<and> k \<le> n \<and> 1 \<le> n \<and> n \<le> 5 \<and> (client s = None \<longrightarrow> k = n)
      \<and> filter isSendMessage es = concat (map (sendAttempt s) (take n (messageQueue s)))"
proof -
  let ?s0 = "s\<lparr>isProcessingQueue := True\<rparr>"
  let ?bs = "min 5 (length (messageQueue s))"
  have "?bs \<le> 0 + length (messageQueue ?s0)" by simp
  from drainLoop_shape [OF this, of send "[]"]
  obtain k n es where
    run: "drainLoop send ?bs 0 ?s0 []
        = (?s0\<lparr>messageQueue := drop k (messageQueue ?s0)\<rparr>, [] @ es, Completed)"
    and kn: "k \<le> n" and nb: "n \<le> ?bs - 0"
    and n1: "0 < ?bs \<and> isReady ?s0 \<longrightarrow> 1 \<le> n"
    and nc: "client ?s0 = None \<longrightarrow> k = n"
    and fl: "filter isSendMessage es = concat (map (sendAttempt ?s0) (take n (messageQueue ?s0)))"
    by (elim exE conjE) (rule that, assumption+)
  have sa: "sendAttempt ?s0 = sendAttempt s" by (rule ext) (simp add: sendAttempt_def)
  from run have "drainLoop send ?bs 0 ?s0 []
      = (s\<lparr>isProcessingQueue := True, messageQueue := drop k (messageQueue s)\<rparr>, es, Completed)"
    by simp
  with g have "drainSession send s = (s\<lparr>messageQueue := drop k (messageQueue s)\<rparr>, es)"
    by (intro drainSession_run) simp_all
  moreover from n1 g have "1 \<le> n" by simp
  moreover from nb have "n \<le> 5" by simp
  moreover from nc have "client s = None \<longrightarrow> k = n" by simp
  moreover from fl have "filter isSendMessage es = concat (map (sendAttempt s) (take n (messageQueue s)))"
    by (simp add: sa)
  ultimately show ?thesis using kn
    by (intro exI [of _ k] exI [of _ n] exI [of _ es]) simp
qed

lemma drainSession_dropped:
  assumes g: "\<not> isProcessingQueue s" "isReady s"
    and q: "messageQueue s = pre @ m # post" and len: "length pre < 5"
    and nr: "\<forall>j < length pre. \<not> rateLimited send j s (pre ! j)"
    and nm: "\<not> rateLimited send (length pre) s m"
  shows "\<exists>k es'. drainSession send s
        = (s\<lparr>messageQueue := drop k post\<rparr>, attempts send 0 s (pre @ [m]) @ es')
      \<and> (\<forall>m' post'. post = m' # post' \<and> length pre < 4 \<longrightarrow> (\<exists>es''. es' = sendAttempt s m' @ es''))"
proof -
  let ?s0 = "s\<lparr>isProcessingQueue := True\<rparr>"
  let ?bs = "min 5 (length (messageQueue s))"
  let ?s1 = "?s0\<lparr>messageQueue := post\<rparr>"
  let ?A = "attempts send 0 s (pre @ [m])"
  let ?i = "Suc (length pre)"
  have c0: "client ?s0 = client s" by simp
  from q len have lt: "?i \<le> ?bs" by simp
  have nr0: "\<forall>j < length (pre @ [m]). \<not> rateLimited send (0 + j) ?s0 ((pre @ [m]) ! j)"
  proof (intro allI impI)
    fix j assume "j < length (pre @ [m])"
    then have "j < length pre \<or> j = length pre" by auto
    then have "\<not> rateLimited send j s ((pre @ [m]) ! j)"
      using nr nm by (auto simp add: nth_append)
    then show "\<not> rateLimited send (0 + j) ?s0 ((pre @ [m]) ! j)"
      by (simp add: rateLimited_client [OF c0])
  qed
  have "drainLoop send ?bs 0 ?s0 []
      = drainLoop send ?bs (0 + length (pre @ [m])) ?s1 ([] @ attempts send 0 ?s0 (pre @ [m]))"
    using lt nr0 by (intro drainLoop_prefix) (simp_all add: g q)
  then have start: "drainLoop send ?bs 0 ?s0 [] = drainLoop send ?bs ?i ?s1 ?A"
    by (simp add: attempts_client [OF c0])
  from q have "?bs \<le> ?i + length (messageQueue ?s1)" by simp
  from drainLoop_shape [OF this, of send ?A]
  obtain k es' where
    run: "drainLoop send ?bs ?i ?s1 ?A
        = (?s1\<lparr>messageQueue := drop k (messageQueue ?s1)\<rparr>, ?A @ es', Completed)"
    by (elim exE conjE) (rule that, assumption)
  from start run have "drainLoop send ?bs 0 ?s0 []
      = (s\<lparr>isProcessingQueue := True, messageQueue := drop k post\<rparr>, ?A @ es', Completed)"
    by simp
  with g q have res: "drainSession send s = (s\<lparr>messageQueue := drop k post\<rparr>, ?A @ es')"
    by (intro drainSession_run) simp_all
  have nxt: "\<exists>es''. es' = sendAttempt s m' @ es''"
    if p: "post = m' # post'" and l4: "length pre < 4" for m' post'
  proof -
    from q p l4 have i: "?i < ?bs" by simp
    have r1: "isReady ?s1" using g by simp
    have q1: "messageQueue ?s1 = m' # post'" using p by simp
    from q have b1: "?bs \<le> ?i + length (messageQueue ?s1)" by simp
    from drainLoop_first [OF i r1 q1 b1, of send ?A]
    obtain k2 es2 where "drainLoop send ?bs ?i ?s1 ?A
        = (?s1\<lparr>messageQueue := drop k2 (messageQueue ?s1)\<rparr>, ?A @ sendAttempt ?s1 m' @ es2, Completed)"
      by blast
    with run have "?A @ es' = ?A @ sendAttempt ?s1 m' @ es2" by simp
    then have "es' = sendAttempt ?s1 m' @ es2" by simp
    moreover have "sendAttempt ?s1 m' = sendAttempt s m'" by (simp add: sendAttempt_def)
    ultimately show ?thesis by simp
  qed
  from res nxt show ?thesis
    by (intro exI [of _ k] exI [of _ es']) simp
qed

section \<open>A drain among the other handlers: properties\<close>

lemma drainFrom_stop:
  "\<not> (i < batchSize \<and> isReady s) \<Longrightarrow>
   drainFrom batchSize i s es = (s\<lparr>isProcessingQueue := False\<rparr>, es, Done Completed)"
proof -
  assume a: "\<not> (i < batchSize \<and> isReady s)"
  show ?thesis by (subst drainFrom.simps) (simp only: a if_False)
qed

lemma drainFrom_empty:
  "i < batchSize \<Longrightarrow> isReady s \<Longrightarrow> messageQueue s = [] \<Longrightarrow>
   drainFrom batchSize i s es = (s, es, Done UncaughtTypeError)"
  by (simp add: drainFrom.simps)

lemma drainFrom_no_client:
  "i < batchSize \<Longrightarrow> isReady s \<Longrightarrow> messageQueue s = m # rest \<Longrightarrow> client s = None \<Longrightarrow>
   drainFrom batchSize i s es = drainFrom batchSize (Suc i) (s\<lparr>messageQueue := rest\<rparr>) es"
  by (subst drainFrom.simps) (simp add: Let_def nullClientError_not_rate)

lemma drainFrom_send:
  "i < batchSize \<Longrightarrow> isReady s \<Longrightarrow> messageQueue s = m # rest \<Longrightarrow> client s = Some c \<Longrightarrow>
   drainFrom batchSize i s es
     = (s\<lparr>messageQueue := rest\<rparr>,
        es @ [SendMessage c (formatPhoneNumber (number m) @ ''@c.us'') (message m)],
        Suspended (AwaitSend batchSize i m))"
  by (subst drainFrom.simps) (simp add: Let_def)

lemma sends_append: "sends (es @ es') = sends es + sends es'"
  by (simp add: sends_def)

lemma sends_simps:
  "sends [] = 0" "sends [Sleep d] = 0" "sends [SendMessage c chatId text] = 1"
  by (simp_all add: sends_def isSendMessage_def)

lemma drainFrom_inBatch:
  assumes b5: "batchSize \<le> 5"
  shows "isProcessingQueue s \<Longrightarrow> i \<le> batchSize \<Longrightarrow> sends es \<le> i \<Longrightarrow>
         inBatch (drainFrom batchSize i s es)"
proof (induction "batchSize - i" arbitrary: i s es)
  case 0
  then have "\<not> (i < batchSize \<and> isReady s)" by simp
  from drainFrom_stop [OF this] "0.prems" b5 show ?case by simp
next
  case (Suc n)
  then have lt: "i < batchSize" by simp
  show ?case
  proof (cases "isReady s")
    case False
    then have "\<not> (i < batchSize \<and> isReady s)" by simp
    from drainFrom_stop [OF this] Suc.prems b5 show ?thesis by simp
  next
    case True
    show ?thesis
    proof (cases "messageQueue s")
      case Nil
      from drainFrom_empty [OF lt True Nil] Suc.prems b5 show ?thesis by simp
    next
      case (Cons m rest)
      show ?thesis
      proof (cases "client s")
        case None
        have "inBatch (drainFrom batchSize (Suc i) (s\<lparr>messageQueue := rest\<rparr>) es)"
          by (rule Suc.hyps(1)) (use Suc.hyps(2) Suc.prems lt in simp_all)
        with drainFrom_no_client [OF lt True Cons None] show ?thesis by simp
      next
        case (Some c)
        from drainFrom_send [OF lt True Cons Some] Suc.prems lt b5 show ?thesis
          by (simp add: sends_append sends_simps)
      qed
    qed
  qed
qed

lemma inBatch_flag: "inBatch (s, es, Suspended task) \<Longrightarrow> isProcessingQueue s"
  by (cases task) simp_all

lemma inBatch_sends: "inBatch (s, es, st) \<Longrightarrow> sends es \<le> 5"
proof (cases st)
  case (Suspended task)
  assume "inBatch (s, es, st)"
  with Suspended show ?thesis by (cases task) simp_all
next
  case (Done ex)
  assume "inBatch (s, es, st)"
  with Done show ?thesis by simp
qed

lemma drainResume_inBatch:
  assumes inv: "inBatch (s0, es, Suspended task)" and flag: "isProcessingQueue s"
  shows "inBatch (drainResume task r s es)"
proof (cases task)
  case (AwaitSend batchSize i m)
  with inv have b: "batchSize \<le> 5" "i < batchSize" "sends es \<le> Suc i" by simp_all
  show ?thesis
  proof (cases r)
    case Sent
    with AwaitSend b flag show ?thesis by (simp add: sends_append sends_simps)
  next
    case (SendError msg)
    show ?thesis
    proof (cases "isRateLimit msg")
      case True
      with AwaitSend SendError b flag show ?thesis by (simp add: sends_append sends_simps)
    next
      case False
      from b have "inBatch (drainFrom batchSize (Suc i) s es)"
        by (intro drainFrom_inBatch flag) simp_all
      with AwaitSend SendError False show ?thesis by simp
    qed
  qed
next
  case (AwaitPace batchSize i)
  with inv have b: "batchSize \<le> 5" "i < batchSize" "sends es \<le> Suc i" by simp_all
  then have "inBatch (drainFrom batchSize (Suc i) s es)"
    by (intro drainFrom_inBatch flag) simp_all
  with AwaitPace show ?thesis by simp
next
  case AwaitCooldown
  with inv show ?thesis by simp
qed

text \<open>Nothing but the drain itself resets the flag.\<close>

lemma applyOp_isProcessingQueue: "isProcessingQueue s \<Longrightarrow> isProcessingQueue (applyOp op s)"
  by (cases op)
    (simp_all add: heartbeat_def initializeSession_def
      onQr_def onQrRendered_def onReady_def onAuthenticated_def onAuthFailure_def
      onDisconnected_def drainSession_def enqueue_def clearQueue_def resetSession_def
      disconnectSession_def Let_def split: option.split)

lemma applyOps_isProcessingQueue: "isProcessingQueue s \<Longrightarrow> isProcessingQueue (applyOps ops s)"
  by (induction ops arbitrary: s) (simp_all add: applyOp_isProcessingQueue)

lemma drainRun_inBatch: "inBatch cfg \<Longrightarrow> inBatch (drainRun sched cfg)"
proof (induction sched arbitrary: cfg)
  case Nil
  then show ?case by simp
next
  case (Cons x sched)
  obtain ops r where x: "x = (ops, r)" by (cases x)
  obtain s es st where cfg: "cfg = (s, es, st)" by (cases cfg)
  show ?case
  proof (cases st)
    case (Suspended task)
    with Cons.prems cfg have inv: "inBatch (s, es, Suspended task)" by simp
    from inBatch_flag [OF inv] have "isProcessingQueue (applyOps ops s)"
      by (rule applyOps_isProcessingQueue)
    from drainResume_inBatch [OF inv this]
    have "inBatch (drainResume task r (applyOps ops s) es)" .
    then have "inBatch (drainRun sched (drainResume task r (applyOps ops s) es))"
      by (rule Cons.IH)
    with x cfg Suspended show ?thesis by simp
  next
    case (Done ex)
    with Cons.prems x cfg show ?thesis by simp
  qed
qed

lemma drainCall_inBatch: "inBatch (drainCall s)"
proof (cases "isProcessingQueue s \<or> length (messageQueue s) = 0 \<or> \<not> isReady s")
  case True
  then have "drainCall s = (s, [], Done Completed)" by (simp add: drainCall_def)
  then show ?thesis by (simp add: sends_simps)
next
  case False
  have "inBatch (drainFrom (min 5 (length (messageQueue s))) 0 (s\<lparr>isProcessingQueue := True\<rparr>) [])"
    by (rule drainFrom_inBatch) (simp_all add: sends_simps)
  with False show ?thesis by (simp add: drainCall_def Let_def)
qed

lemma drainCall_noop:
  "isProcessingQueue s \<or> messageQueue s = [] \<or> \<not> isReady s \<Longrightarrow>
   drainCall s = (s, [], Done Completed)"
  by (auto simp add: drainCall_def)

lemma drainCall_first:
  assumes "\<not> isProcessingQueue s" "isReady s" "messageQueue s = m # rest" "client s = Some c"
  shows "drainCall s
     = (s\<lparr>isProcessingQueue := True, messageQueue := rest\<rparr>,
        [SendMessage c (formatPhoneNumber (number m) @ ''@c.us'') (message m)],
        Suspended (AwaitSend (min 5 (length (messageQueue s))) 0 m))"
proof -
  let ?s1 = "s\<lparr>isProcessingQueue := True\<rparr>"
  from assms have "drainFrom (min 5 (length (messageQueue s))) 0 ?s1 []
     = (?s1\<lparr>messageQueue := rest\<rparr>,
        [] @ [SendMessage c (formatPhoneNumber (number m) @ ''@c.us'') (message m)],
        Suspended (AwaitSend (min 5 (length (messageQueue s))) 0 m))"
    by (intro drainFrom_send) simp_all
  with assms show ?thesis by (simp add: drainCall_def Let_def)
qed

text \<open>
  An invocation that is left alone does what the loop taken in one piece does.
\<close>

lemma drainAlone_done: "drainAlone send n (s, es, Done ex) = (s, es, Done ex)"
  by (cases n) simp_all

lemma drainAlone_drainFrom:
  "2 * (batchSize - i) + 1 \<le> n \<Longrightarrow>
   drainAlone send n (drainFrom batchSize i s es)
     = (case drainLoop send batchSize i s es of
          (s', es', ex) \<Rightarrow>
            ((case ex of Completed \<Rightarrow> s'\<lparr>isProcessingQueue := False\<rparr> | UncaughtTypeError \<Rightarrow> s'),
             es', Done ex))"
proof (induction "batchSize - i" arbitrary: i s es n)
  case 0
  then have stop: "\<not> (i < batchSize \<and> isReady s)" by simp
  show ?case
    by (simp only: drainFrom_stop [OF stop] drainLoop_stop [OF stop] drainAlone_done) simp
next
  case (Suc k)
  then have lt: "i < batchSize" by simp
  show ?case
  proof (cases "isReady s")
    case False
    then have stop: "\<not> (i < batchSize \<and> isReady s)" by simp
    show ?thesis
      by (simp only: drainFrom_stop [OF stop] drainLoop_stop [OF stop] drainAlone_done) simp
  next
    case True
    note ready = True
    show ?thesis
    proof (cases "messageQueue s")
      case Nil
      show ?thesis
        by (simp only: drainFrom_empty [OF lt ready Nil] drainLoop_empty [OF lt ready Nil]
            drainAlone_done) simp
    next
      case (Cons m rest)
      let ?s1 = "s\<lparr>messageQueue := rest\<rparr>"
      let ?call = "SendMessage (the (client s)) (formatPhoneNumber (number m) @ ''@c.us'') (message m)"
      show ?thesis
      proof (cases "client s")
        case None
        then have ts: "trySend send i ?s1 m = (SendError nullClientError, [])"
          by (simp add: trySend_def)
        have k: "k = batchSize - Suc i" using Suc.hyps(2) by simp
        have n: "2 * (batchSize - Suc i) + 1 \<le> n" using Suc.prems by simp
        from Suc.hyps(1) [OF k n, of ?s1 es]
        show ?thesis
          by (simp only: drainFrom_no_client [OF lt ready Cons None]
              drainLoop_dropped [OF lt ready Cons ts nullClientError_not_rate] append_Nil2)
      next
        case (Some c)
        let ?sent = "[SendMessage c (formatPhoneNumber (number m) @ ''@c.us'') (message m)]"
        let ?r = "send i c (formatPhoneNumber (number m) @ ''@c.us'') (message m)"
        from Some have ts: "trySend send i ?s1 m = (?r, ?sent)"
          by (simp add: trySend_def Let_def)
        have df: "drainFrom batchSize i s es
            = (?s1, es @ ?sent, Suspended (AwaitSend batchSize i m))"
          by (rule drainFrom_send [OF lt ready Cons Some])
        from Suc.prems lt obtain n1 where n1: "n = Suc n1" and n1': "2 * (batchSize - Suc i) + 2 \<le> n1"
          by (cases n) auto
        then obtain n2 where n2: "n1 = Suc n2" and n2': "2 * (batchSize - Suc i) + 1 \<le> n2"
          by (cases n1) auto
        have k: "k = batchSize - Suc i" using Suc.hyps(2) by simp
        show ?thesis
        proof (cases ?r)
          case Sent
          with ts have ts': "trySend send i ?s1 m = (Sent, ?sent)" by simp
          have "drainAlone send n (drainFrom batchSize i s es)
              = drainAlone send n2 (drainFrom batchSize (Suc i) ?s1 (es @ ?sent @ [Sleep 3000]))"
            by (simp add: df n1 n2 ts')
          also have "\<dots> = (case drainLoop send batchSize (Suc i) ?s1 (es @ ?sent @ [Sleep 3000]) of
              (s', es', ex) \<Rightarrow>
                ((case ex of Completed \<Rightarrow> s'\<lparr>isProcessingQueue := False\<rparr> | UncaughtTypeError \<Rightarrow> s'),
                 es', Done ex))"
            by (rule Suc.hyps(1) [OF k n2'])
          finally show ?thesis
            by (simp only: drainLoop_sent [OF lt ready Cons ts'])
        next
          case (SendError e)
          with ts have ts': "trySend send i ?s1 m = (SendError e, ?sent)" by simp
          show ?thesis
          proof (cases "isRateLimit e")
            case True
            from Cons have "s\<lparr>messageQueue := m # rest\<rparr> = s" by simp
            then have "(s\<lparr>messageQueue := m # rest\<rparr>)\<lparr>isProcessingQueue := False\<rparr>
                = s\<lparr>isProcessingQueue := False\<rparr>"
              by (rule arg_cong)
            then have putback: "s\<lparr>messageQueue := m # rest, isProcessingQueue := False\<rparr>
                = s\<lparr>isProcessingQueue := False\<rparr>"
              by simp
            have "drainAlone send n (drainFrom batchSize i s es)
                = (s\<lparr>isProcessingQueue := False\<rparr>, es @ ?sent @ [Sleep 10000], Done Completed)"
              by (simp add: df n1 n2 ts' True putback drainAlone_done)
            then show ?thesis
              by (simp add: drainLoop_rate_limited [OF lt ready Cons ts' True])
          next
            case False
            have "drainAlone send n (drainFrom batchSize i s es)
                = drainAlone send n1 (drainFrom batchSize (Suc i) ?s1 (es @ ?sent))"
              by (simp add: df n1 ts' False)
            also have "\<dots> = (case drainLoop send batchSize (Suc i) ?s1 (es @ ?sent) of
                (s', es', ex) \<Rightarrow>
                  ((case ex of Completed \<Rightarrow> s'\<lparr>isProcessingQueue := False\<rparr> | UncaughtTypeError \<Rightarrow> s'),
                   es', Done ex))"
              by (rule Suc.hyps(1) [OF k]) (use n1' in simp)
            finally show ?thesis
              by (simp only: drainLoop_dropped [OF lt ready Cons ts' False])
          qed
        qed
      qed
    qed
  qed
qed

lemma drainAlone_drainCall:
  assumes "11 \<le> n"
  shows "\<exists>ex. drainAlone send n (drainCall s)
     = (fst (drainSession send s), snd (drainSession send s), Done ex)"
proof (cases "isProcessingQueue s \<or> length (messageQueue s) = 0 \<or> \<not> isReady s")
  case True
  then have "drainCall s = (s, [], Done Completed)" and "drainSession send s = (s, [])"
    by (simp_all add: drainCall_def drainSession_def)
  then show ?thesis by (simp add: drainAlone_done)
next
  case False
  let ?s1 = "s\<lparr>isProcessingQueue := True\<rparr>"
  let ?b = "min 5 (length (messageQueue s))"
  obtain s2 es ex where dl: "drainLoop send ?b 0 ?s1 [] = (s2, es, ex)"
    by (cases "drainLoop send ?b 0 ?s1 []")
  from assms have "2 * (?b - 0) + 1 \<le> n" by simp
  from drainAlone_drainFrom [OF this, of send ?s1 "[]"] dl
  have "drainAlone send n (drainFrom ?b 0 ?s1 [])
      = ((case ex of Completed \<Rightarrow> s2\<lparr>isProcessingQueue := False\<rparr> | UncaughtTypeError \<Rightarrow> s2),
         es, Done ex)"
    by simp
  moreover from False dl have "drainSession send s
      = ((case ex of Completed \<Rightarrow> s2\<lparr>isProcessingQueue := False\<rparr> | UncaughtTypeError \<Rightarrow> s2), es)"
    by (simp add: drainSession_def Let_def split: drain_exit.split)
  ultimately show ?thesis using False by (simp add: drainCall_def Let_def)
qed

section \<open>The dispatcher: guard, batch and failures\<close>

lemma backlogSession_eq:
  "backlogSession = linkedSession\<lparr>messageQueue :=
     map exampleMessage [''1'', ''2'', ''3'', ''4'', ''5'', ''6'', ''7'']\<rparr>"
  by (simp add: backlogSession_def enqueue_def linkedSession_eq freshSession_def)

lemma authenticatedAgain_eq:
  "authenticatedAgain = linkedSession\<lparr>status := Authenticated,
     messageQueue := [exampleMessage ''1'']\<rparr>"
  by (simp add: authenticatedAgain_def linkedSession_eq freshSession_def initializeSession_def
      onReady_def onAuthenticated_def enqueue_def Let_def)

text \<open>
  Claim C3, as stated, fails: the guard of a drain reads the \<open>isReady\<close> flag, not the
  status. After a ready event followed by an authenticated event the status is
  \<open>Authenticated\<close>, and a drain still sends the queued message.
\<close>

theorem drain_not_ready_status_counterexample:
  "status authenticatedAgain \<noteq> Ready
   \<and> processMessageQueue alwaysSent ''firm_a'' [(''firm_a'', authenticatedAgain)]
       = ([(''firm_a'', authenticatedAgain\<lparr>messageQueue := []\<rparr>)],
          [SendMessage 1 ''919876543211@c.us'' ''hello 1'', Sleep 3000])"
proof -
  have g: "\<not> isProcessingQueue authenticatedAgain" "messageQueue authenticatedAgain \<noteq> []"
    "isReady authenticatedAgain"
    by (simp_all add: authenticatedAgain_eq linkedSession_eq freshSession_def)
  have nr: "\<forall>j < min 5 (length (messageQueue authenticatedAgain)).
      \<not> rateLimited alwaysSent j authenticatedAgain (messageQueue authenticatedAgain ! j)"
    by (simp add: rateLimited_def trySend_def Let_def alwaysSent_def nullClientError_not_rate
        split: option.split)
  have "drainSession alwaysSent authenticatedAgain
      = (authenticatedAgain\<lparr>messageQueue := []\<rparr>,
         [SendMessage 1 ''919876543211@c.us'' ''hello 1'', Sleep 3000])"
    unfolding drainSession_batch [OF g nr]
    by (simp add: authenticatedAgain_eq linkedSession_eq freshSession_def sendAttempt_def
        trySend_def alwaysSent_def exampleMessage_def formatPhoneNumber_def stripNonDigits_def
        isDigit_def startsWith_def Let_def)
  then show ?thesis
    by (simp add: processMessageQueue_def onSession_def)
      (simp add: authenticatedAgain_eq)
qed


lemma processMessageQueue_found:
  "map_of reg key = Some s \<Longrightarrow>
   processMessageQueue send key reg
     = (AList.update key (fst (drainSession send s)) reg, snd (drainSession send s))"
  by (simp add: processMessageQueue_def onSession_def split_beta)

lemma processMessageQueue_noop:
  assumes "map_of reg key = None
      \<or> (\<exists>s. map_of reg key = Some s \<and> (isProcessingQueue s \<or> messageQueue s = [] \<or> \<not> isReady s))"
  shows "processMessageQueue send key reg = (reg, [])"
proof (cases "map_of reg key")
  case None
  then show ?thesis by (simp add: processMessageQueue_def onSession_def)
next
  case (Some s)
  with assms have "isProcessingQueue s \<or> messageQueue s = [] \<or> \<not> isReady s" by simp
  then have "drainSession send s = (s, [])" by (auto simp add: drainSession_def)
  with Some show ?thesis by (simp add: processMessageQueue_found update_triv)
qed

lemma processMessageQueue_proceeds:
  assumes s: "map_of reg key = Some s"
    and g: "\<not> isProcessingQueue s" "messageQueue s \<noteq> []" "isReady s"
  shows "processMessageQueue send key reg \<noteq> (reg, [])"
    and "\<exists>k n es. processMessageQueue send key reg
            = (AList.update key (s\<lparr>messageQueue := drop k (messageQueue s)\<rparr>) reg, es)
          \<and> k \<le> n \<and> 1 \<le> n \<and> n \<le> 5
          \<and> filter isSendMessage es = concat (map (sendAttempt s) (take n (messageQueue s)))"
proof -
  from drainSession_shape [OF g, of send] obtain k n es where
    run: "drainSession send s = (s\<lparr>messageQueue := drop k (messageQueue s)\<rparr>, es)"
    and kn: "k \<le> n" and n1: "1 \<le> n" and n5: "n \<le> 5" and nc: "client s = None \<longrightarrow> k = n"
    and fl: "filter isSendMessage es = concat (map (sendAttempt s) (take n (messageQueue s)))"
    by (elim exE conjE) (rule that, assumption+)
  let ?s' = "s\<lparr>messageQueue := drop k (messageQueue s)\<rparr>"
  from s run have pm: "processMessageQueue send key reg = (AList.update key ?s' reg, es)"
    by (simp add: processMessageQueue_found)
  with kn n1 n5 fl show "\<exists>k n es. processMessageQueue send key reg
            = (AList.update key (s\<lparr>messageQueue := drop k (messageQueue s)\<rparr>) reg, es)
          \<and> k \<le> n \<and> 1 \<le> n \<and> n \<le> 5
          \<and> filter isSendMessage es = concat (map (sendAttempt s) (take n (messageQueue s)))"
    by (intro exI [of _ k] exI [of _ n] exI [of _ es]) simp
  obtain m rest where q: "messageQueue s = m # rest" using g(2) by (cases "messageQueue s") simp_all
  show "processMessageQueue send key reg \<noteq> (reg, [])"
  proof (cases "client s")
    case None
    with nc n1 have "1 \<le> k" by simp
    then have shorter: "length (drop k (messageQueue s)) < length (messageQueue s)"
      using q by simp
    have "drop k (messageQueue s) \<noteq> messageQueue s"
    proof
      assume unchanged: "drop k (messageQueue s) = messageQueue s"
      from shorter have "length (messageQueue s) < length (messageQueue s)"
        by (simp only: unchanged)
      then show False by simp
    qed
    then have differ: "messageQueue ?s' \<noteq> messageQueue s" by simp
    have "?s' \<noteq> s"
    proof
      assume "?s' = s"
      then have same: "messageQueue ?s' = messageQueue s" by (rule arg_cong)
      from differ same show False by (rule notE)
    qed
    then have "map_of (AList.update key ?s' reg) key \<noteq> map_of reg key"
      using s by (simp add: update_conv')
    then have "AList.update key ?s' reg \<noteq> reg" by auto
    with pm show ?thesis by simp
  next
    case (Some c)
    from n1 obtain n' where n: "n = Suc n'" by (cases n) simp_all
    have "filter isSendMessage es \<noteq> []"
      unfolding fl by (simp add: q n sendAttempt_def Some)
    then have "es \<noteq> []" by auto
    with pm show ?thesis by simp
  qed
qed

lemma processMessageQueue_two_batches:
  assumes s: "map_of reg key = Some s"
    and g: "\<not> isProcessingQueue s" "isReady s" and l7: "length (messageQueue s) = 7"
    and nr1: "\<forall>j<5. \<not> rateLimited send j s (messageQueue s ! j)"
    and nr2: "\<forall>j<2. \<not> rateLimited send' j s (messageQueue s ! (5 + j))"
  shows "\<exists>reg1. processMessageQueue send key reg
            = (reg1, attempts send 0 s (take 5 (messageQueue s)))
          \<and> map_of reg1 key = Some (s\<lparr>messageQueue := drop 5 (messageQueue s)\<rparr>)
          \<and> length (drop 5 (messageQueue s)) = 2
          \<and> (\<exists>reg2. processMessageQueue send' key reg1
                  = (reg2, attempts send' 0 s (drop 5 (messageQueue s)))
                \<and> map_of reg2 key = Some (s\<lparr>messageQueue := []\<rparr>))"
proof -
  let ?q = "messageQueue s"
  let ?s1 = "s\<lparr>messageQueue := drop 5 ?q\<rparr>"
  let ?reg1 = "AList.update key ?s1 reg"
  let ?reg2 = "AList.update key (s\<lparr>messageQueue := []\<rparr>) ?reg1"
  from l7 have ne: "?q \<noteq> []" by auto
  from l7 nr1 have "\<forall>j < min 5 (length ?q). \<not> rateLimited send j s (?q ! j)" by simp
  from drainSession_batch [OF g(1) ne g(2) this]
  have d1: "drainSession send s = (?s1, attempts send 0 s (take 5 ?q))" .
  with s have p1: "processMessageQueue send key reg = (?reg1, attempts send 0 s (take 5 ?q))"
    by (simp add: processMessageQueue_found)
  have look1: "map_of ?reg1 key = Some ?s1" by (simp add: update_conv')
  have g1: "\<not> isProcessingQueue ?s1" "messageQueue ?s1 \<noteq> []" "isReady ?s1"
    using g l7 by auto
  have c1: "client ?s1 = client s" by simp
  have "\<forall>j < min 5 (length (messageQueue ?s1)). \<not> rateLimited send' j ?s1 (messageQueue ?s1 ! j)"
    using nr2 l7 by (simp add: rateLimited_client [OF c1])
  from drainSession_batch [OF g1 this]
  have "drainSession send' ?s1
      = (?s1\<lparr>messageQueue := drop 5 (messageQueue ?s1)\<rparr>,
         attempts send' 0 ?s1 (take 5 (messageQueue ?s1)))" .
  then have d2: "drainSession send' ?s1 = (s\<lparr>messageQueue := []\<rparr>, attempts send' 0 s (drop 5 ?q))"
    using l7 by (simp add: attempts_client [OF c1])
  with look1 have p2: "processMessageQueue send' key ?reg1
      = (?reg2, attempts send' 0 s (drop 5 ?q))"
    by (simp add: processMessageQueue_found)
  have look2: "map_of ?reg2 key = Some (s\<lparr>messageQueue := []\<rparr>)" by (simp add: update_conv')
  from l7 have "length (drop 5 ?q) = 2" by simp
  with p1 look1 p2 look2 show ?thesis
    by (intro exI [of _ ?reg1] conjI exI [of _ ?reg2]) assumption+
qed


text \<open>
  Claim C3, amended. A drain does nothing when the session is not registered, a drain is
  already in flight, the queue is empty or \<open>isReady\<close> is false. Otherwise it proceeds: it
  sets \<open>isProcessingQueue\<close> and attempts the oldest message, and if the session has a
  client it is then suspended, in flight, until the send settles. Whatever the other
  handlers do to the session in the meantime and however the sends settle, as long as the
  invocation is suspended the flag is set and a second drain request does nothing; and
  the invocation makes at most five sends in all. Left alone, the invocation does what
  the loop taken in one piece does: it makes between one and five attempts, on the oldest
  messages in queue order, and what is left of the queue is the old queue without a
  number of its oldest messages. With seven messages queued and none of the first five
  attempts rate limited, such a drain leaves exactly the last two queued; a second one in
  which neither is rate limited attempts both and leaves the queue empty.
\<close>

theorem processMessageQueue_guard_and_batch:
  "((map_of reg key = None
       \<or> (\<exists>s. map_of reg key = Some s
              \<and> (isProcessingQueue s \<or> messageQueue s = [] \<or> \<not> isReady s)))
      \<longrightarrow> processMessageQueue send key reg = (reg, []))
   \<and> (map_of reg key = Some s \<and> \<not> isProcessingQueue s \<and> messageQueue s \<noteq> [] \<and> isReady s \<longrightarrow>
        processMessageQueue send key reg \<noteq> (reg, [])
        \<and> (\<exists>k n es. processMessageQueue send key reg
                = (AList.update key (s\<lparr>messageQueue := drop k (messageQueue s)\<rparr>) reg, es)
              \<and> k \<le> n \<and> 1 \<le> n \<and> n \<le> 5
              \<and> filter isSendMessage es = concat (map (sendAttempt s) (take n (messageQueue s)))))
   \<and> (map_of reg key = Some s \<and> \<not> isProcessingQueue s \<and> isReady s
        \<and> length (messageQueue s) = 7
        \<and> (\<forall>j<5. \<not> rateLimited send j s (messageQueue s ! j))
        \<and> (\<forall>j<2. \<not> rateLimited send' j s (messageQueue s ! (5 + j))) \<longrightarrow>
        (\<exists>reg1. processMessageQueue send key reg
                  = (reg1, attempts send 0 s (take 5 (messageQueue s)))
            \<and> map_of reg1 key = Some (s\<lparr>messageQueue := drop 5 (messageQueue s)\<rparr>)
            \<and> length (drop 5 (messageQueue s)) = 2
            \<and> (\<exists>reg2. processMessageQueue send' key reg1
                    = (reg2, attempts send' 0 s (drop 5 (messageQueue s)))
                  \<and> map_of reg2 key = Some (s\<lparr>messageQueue := []\<rparr>))))
   \<and> (\<not> isProcessingQueue s \<and> isReady s \<and> messageQueue s = m # rest \<and> client s = Some c \<longrightarrow>
        drainCall s
          = (s\<lparr>isProcessingQueue := True, messageQueue := rest\<rparr>,
             [SendMessage c (formatPhoneNumber (number m) @ ''@c.us'') (message m)],
             Suspended (AwaitSend (min 5 (length (messageQueue s))) 0 m)))
   \<and> (drainRun sched (drainCall s0) = (s1, es1, Suspended task) \<longrightarrow>
        isProcessingQueue (applyOps ops s1)
        \<and> drainCall (applyOps ops s1) = (applyOps ops s1, [], Done Completed)
        \<and> (map_of reg' key = Some (applyOps ops s1) \<longrightarrow>
              processMessageQueue send key reg' = (reg', [])))
   \<and> sends (fst (snd (drainRun sched (drainCall s0)))) \<le> 5
   \<and> (11 \<le> n \<longrightarrow>
        (\<exists>ex. drainAlone send n (drainCall s0)
                 = (fst (drainSession send s0), snd (drainSession send s0), Done ex)))"
proof -
  have a: "(map_of reg key = None
       \<or> (\<exists>s. map_of reg key = Some s
              \<and> (isProcessingQueue s \<or> messageQueue s = [] \<or> \<not> isReady s)))
      \<longrightarrow> processMessageQueue send key reg = (reg, [])"
    using processMessageQueue_noop by blast
  have b: "map_of reg key = Some s \<and> \<not> isProcessingQueue s \<and> messageQueue s \<noteq> [] \<and> isReady s \<longrightarrow>
        processMessageQueue send key reg \<noteq> (reg, [])
        \<and> (\<exists>k n es. processMessageQueue send key reg
                = (AList.update key (s\<lparr>messageQueue := drop k (messageQueue s)\<rparr>) reg, es)
              \<and> k \<le> n \<and> 1 \<le> n \<and> n \<le> 5
              \<and> filter isSendMessage es = concat (map (sendAttempt s) (take n (messageQueue s))))"
    using processMessageQueue_proceeds [of reg key s send] by blast
  have c: "map_of reg key = Some s \<and> \<not> isProcessingQueue s \<and> isReady s
        \<and> length (messageQueue s) = 7
        \<and> (\<forall>j<5. \<not> rateLimited send j s (messageQueue s ! j))
        \<and> (\<forall>j<2. \<not> rateLimited send' j s (messageQueue s ! (5 + j))) \<longrightarrow>
        (\<exists>reg1. processMessageQueue send key reg
                  = (reg1, attempts send 0 s (take 5 (messageQueue s)))
            \<and> map_of reg1 key = Some (s\<lparr>messageQueue := drop 5 (messageQueue s)\<rparr>)
            \<and> length (drop 5 (messageQueue s)) = 2
            \<and> (\<exists>reg2. processMessageQueue send' key reg1
                    = (reg2, attempts send' 0 s (drop 5 (messageQueue s)))
                  \<and> map_of reg2 key = Some (s\<lparr>messageQueue := []\<rparr>)))"
    using processMessageQueue_two_batches [of reg key s send send'] by blast
  have d: "\<not> isProcessingQueue s \<and> isReady s \<and> messageQueue s = m # rest \<and> client s = Some c \<longrightarrow>
        drainCall s
          = (s\<lparr>isProcessingQueue := True, messageQueue := rest\<rparr>,
             [SendMessage c (formatPhoneNumber (number m) @ ''@c.us'') (message m)],
             Suspended (AwaitSend (min 5 (length (messageQueue s))) 0 m))"
  proof
    assume "\<not> isProcessingQueue s \<and> isReady s \<and> messageQueue s = m # rest \<and> client s = Some c"
    then show "drainCall s
          = (s\<lparr>isProcessingQueue := True, messageQueue := rest\<rparr>,
             [SendMessage c (formatPhoneNumber (number m) @ ''@c.us'') (message m)],
             Suspended (AwaitSend (min 5 (length (messageQueue s))) 0 m))"
      by (intro drainCall_first) simp_all
  qed
  have inv: "inBatch (drainRun sched (drainCall s0))"
    by (intro drainRun_inBatch drainCall_inBatch)
  have e: "drainRun sched (drainCall s0) = (s1, es1, Suspended task) \<longrightarrow>
        isProcessingQueue (applyOps ops s1)
        \<and> drainCall (applyOps ops s1) = (applyOps ops s1, [], Done Completed)
        \<and> (map_of reg' key = Some (applyOps ops s1) \<longrightarrow>
              processMessageQueue send key reg' = (reg', []))"
  proof
    assume "drainRun sched (drainCall s0) = (s1, es1, Suspended task)"
    with inv have "inBatch (s1, es1, Suspended task)" by simp
    then have "isProcessingQueue s1" by (rule inBatch_flag)
    then have flag: "isProcessingQueue (applyOps ops s1)" by (rule applyOps_isProcessingQueue)
    then have c2: "drainCall (applyOps ops s1) = (applyOps ops s1, [], Done Completed)"
      by (intro drainCall_noop) simp
    have c3: "map_of reg' key = Some (applyOps ops s1) \<longrightarrow>
        processMessageQueue send key reg' = (reg', [])"
    proof
      assume "map_of reg' key = Some (applyOps ops s1)"
      with flag show "processMessageQueue send key reg' = (reg', [])"
        by (intro processMessageQueue_noop) simp
    qed
    from flag c2 c3 show "isProcessingQueue (applyOps ops s1)
        \<and> drainCall (applyOps ops s1) = (applyOps ops s1, [], Done Completed)
        \<and> (map_of reg' key = Some (applyOps ops s1) \<longrightarrow>
              processMessageQueue send key reg' = (reg', []))"
      by (intro conjI)
  qed
  have f: "sends (fst (snd (drainRun sched (drainCall s0)))) \<le> 5"
  proof -
    obtain s2 es2 st2 where cfg: "drainRun sched (drainCall s0) = (s2, es2, st2)"
      by (cases "drainRun sched (drainCall s0)")
    with inv have "inBatch (s2, es2, st2)" by simp
    then have "sends es2 \<le> 5" by (rule inBatch_sends)
    with cfg show ?thesis by simp
  qed
  have g: "11 \<le> n \<longrightarrow>
        (\<exists>ex. drainAlone send n (drainCall s0)
                 = (fst (drainSession send s0), snd (drainSession send s0), Done ex))"
    using drainAlone_drainCall by blast
  from a b c d e f g show ?thesis by (intro conjI)
qed

text \<open>
  Claim C1. In a drain that proceeds, take the first message \<open>m\<close> of the batch whose
  attempt may be rate limited (no earlier attempt is). If sending \<open>m\<close> fails with an
  error classified as rate limiting, the queue afterwards is \<open>m\<close> followed by everything
  that was behind it, the last effect is the 10 second pause, and nothing behind \<open>m\<close>
  has been attempted. If it fails with any other error, \<open>m\<close> is not put back: the queue
  afterwards is a tail of what was behind \<open>m\<close>, no pause follows the failed attempt, and
  when the batch has room the next queued message is attempted next.
\<close>

theorem drain_failure_handling:
  assumes "\<not> isProcessingQueue s" and "isReady s"
    and "messageQueue s = pre @ m # post" and "length pre < 5"
    and "\<forall>j < length pre. \<not> rateLimited send j s (pre ! j)"
  shows "(\<forall>e. fst (trySend send (length pre) s m) = SendError e \<and> isRateLimit e \<longrightarrow>
            drainSession send s
              = (s\<lparr>messageQueue := m # post\<rparr>,
                 attempts send 0 s pre @ sendAttempt s m @ [Sleep 10000]))
       \<and> (\<forall>e. fst (trySend send (length pre) s m) = SendError e \<and> \<not> isRateLimit e \<longrightarrow>
            (\<exists>k es'. drainSession send s
                 = (s\<lparr>messageQueue := drop k post\<rparr>,
                    attempts send 0 s pre @ sendAttempt s m @ es')
               \<and> (\<forall>m' post'. post = m' # post' \<and> length pre < 4 \<longrightarrow>
                     (\<exists>es''. es' = sendAttempt s m' @ es''))))"
proof (intro conjI allI impI)
  fix e assume "fst (trySend send (length pre) s m) = SendError e \<and> isRateLimit e"
  then have "rateLimited send (length pre) s m" by (simp add: rateLimited_def)
  with assms show "drainSession send s
      = (s\<lparr>messageQueue := m # post\<rparr>, attempts send 0 s pre @ sendAttempt s m @ [Sleep 10000])"
    by (rule drainSession_requeue)
next
  fix e assume h: "fst (trySend send (length pre) s m) = SendError e \<and> \<not> isRateLimit e"
  then have nm: "\<not> rateLimited send (length pre) s m" by (simp add: rateLimited_def)
  from h have "attempts send 0 s (pre @ [m]) = attempts send 0 s pre @ sendAttempt s m"
    by (simp add: attempts_append)
  with drainSession_dropped [OF assms nm]
  show "\<exists>k es'. drainSession send s
           = (s\<lparr>messageQueue := drop k post\<rparr>, attempts send 0 s pre @ sendAttempt s m @ es')
         \<and> (\<forall>m' post'. post = m' # post' \<and> length pre < 4 \<longrightarrow>
               (\<exists>es''. es' = sendAttempt s m' @ es''))"
    by simp
qed


lemma backlog_fields:
  "\<not> isProcessingQueue backlogSession" "isReady backlogSession" "client backlogSession = Some 1"
  "messageQueue backlogSession = map exampleMessage [''1'', ''2'', ''3'', ''4'', ''5'', ''6'', ''7'']"
  by (simp_all add: backlogSession_eq linkedSession_eq freshSession_def)

lemma exampleMessage_attempt:
  "sendAttempt backlogSession (exampleMessage [d])
     = [SendMessage 1 (''91987654321'' @ [d] @ ''@c.us'') (''hello '' @ [d])]"
  if "isDigit d"
  using that
  by (simp add: sendAttempt_def backlog_fields exampleMessage_def formatPhoneNumber_def
      stripNonDigits_def isDigit_def startsWith_def Let_def)

lemma exampleMessage_trySend:
  "fst (trySend send i backlogSession (exampleMessage [d]))
     = send i 1 (''91987654321'' @ [d] @ ''@c.us'') (''hello '' @ [d])"
  if "isDigit d"
  using that
  by (simp add: trySend_def backlog_fields exampleMessage_def formatPhoneNumber_def
      stripNonDigits_def isDigit_def startsWith_def Let_def)

theorem drain_failure_handling_witness:
  "\<not> isProcessingQueue backlogSession \<and> isReady backlogSession
   \<and> messageQueue backlogSession
       = [exampleMessage ''1'', exampleMessage ''2''] @ exampleMessage ''3''
           # [exampleMessage ''4'', exampleMessage ''5'', exampleMessage ''6'', exampleMessage ''7'']
   \<and> fst (trySend thirdRateLimited 1 backlogSession (exampleMessage ''2''))
       = SendError ''Evaluation failed: chat not found''
   \<and> \<not> isRateLimit ''Evaluation failed: chat not found''
   \<and> fst (trySend thirdRateLimited 2 backlogSession (exampleMessage ''3''))
       = SendError ''Too many requests: rate-overlimit''
   \<and> isRateLimit ''Too many requests: rate-overlimit''
   \<and> drainSession thirdRateLimited backlogSession
       = (backlogSession\<lparr>messageQueue :=
            [exampleMessage ''3'', exampleMessage ''4'', exampleMessage ''5'',
             exampleMessage ''6'', exampleMessage ''7'']\<rparr>,
          [SendMessage 1 ''919876543211@c.us'' ''hello 1'', Sleep 3000,
           SendMessage 1 ''919876543212@c.us'' ''hello 2'',
           SendMessage 1 ''919876543213@c.us'' ''hello 3'', Sleep 10000])"
proof -
  let ?pre = "[exampleMessage ''1'', exampleMessage ''2'']"
  let ?post = "[exampleMessage ''4'', exampleMessage ''5'', exampleMessage ''6'', exampleMessage ''7'']"
  have dg: "isDigit CHR ''1''" "isDigit CHR ''2''" "isDigit CHR ''3''"
    by (simp_all add: isDigit_def)
  have q: "messageQueue backlogSession = ?pre @ exampleMessage ''3'' # ?post"
    by (simp add: backlog_fields)
  have len: "length ?pre < 5" by simp
  have t1: "fst (trySend thirdRateLimited 0 backlogSession (exampleMessage ''1'')) = Sent"
    by (simp add: exampleMessage_trySend dg thirdRateLimited_def)
  have t2: "fst (trySend thirdRateLimited 1 backlogSession (exampleMessage ''2''))
      = SendError ''Evaluation failed: chat not found''"
    by (simp add: exampleMessage_trySend dg thirdRateLimited_def)
  have t3: "fst (trySend thirdRateLimited 2 backlogSession (exampleMessage ''3''))
      = SendError ''Too many requests: rate-overlimit''"
    by (simp add: exampleMessage_trySend dg thirdRateLimited_def)
  have r2: "\<not> isRateLimit ''Evaluation failed: chat not found''"
    by (simp add: isRateLimit_def startsWith_def)
  have r3: "isRateLimit ''Too many requests: rate-overlimit''"
    by (simp add: isRateLimit_def startsWith_def)
  have nr: "\<forall>j < length ?pre. \<not> rateLimited thirdRateLimited j backlogSession (?pre ! j)"
  proof (intro allI impI)
    fix j assume "j < length ?pre"
    then have "j = 0 \<or> j = 1" by auto
    then show "\<not> rateLimited thirdRateLimited j backlogSession (?pre ! j)"
      using t1 t2 r2 by (auto simp add: rateLimited_def)
  qed
  have l2: "length ?pre = 2" by simp
  from drain_failure_handling [OF backlog_fields(1,2) q len nr]
  have "\<forall>e. fst (trySend thirdRateLimited (length ?pre) backlogSession (exampleMessage ''3''))
            = SendError e \<and> isRateLimit e \<longrightarrow>
          drainSession thirdRateLimited backlogSession
            = (backlogSession\<lparr>messageQueue := exampleMessage ''3'' # ?post\<rparr>,
               attempts thirdRateLimited 0 backlogSession ?pre
                 @ sendAttempt backlogSession (exampleMessage ''3'') @ [Sleep 10000])"
    by (rule conjunct1)
  then have "fst (trySend thirdRateLimited (length ?pre) backlogSession (exampleMessage ''3''))
            = SendError ''Too many requests: rate-overlimit''
          \<and> isRateLimit ''Too many requests: rate-overlimit'' \<longrightarrow>
          drainSession thirdRateLimited backlogSession
            = (backlogSession\<lparr>messageQueue := exampleMessage ''3'' # ?post\<rparr>,
               attempts thirdRateLimited 0 backlogSession ?pre
                 @ sendAttempt backlogSession (exampleMessage ''3'') @ [Sleep 10000])"
    by (rule spec)
  with t3 r3 have "drainSession thirdRateLimited backlogSession
      = (backlogSession\<lparr>messageQueue := exampleMessage ''3'' # ?post\<rparr>,
         attempts thirdRateLimited 0 backlogSession ?pre
           @ sendAttempt backlogSession (exampleMessage ''3'') @ [Sleep 10000])"
    by (simp only: l2)
  moreover have "attempts thirdRateLimited 0 backlogSession ?pre
      = [SendMessage 1 ''919876543211@c.us'' ''hello 1'', Sleep 3000,
         SendMessage 1 ''919876543212@c.us'' ''hello 2'']"
    using t1 t2 by (simp add: exampleMessage_attempt dg)
  moreover have "sendAttempt backlogSession (exampleMessage ''3'')
      = [SendMessage 1 ''919876543213@c.us'' ''hello 3'']"
    by (simp add: exampleMessage_attempt dg)
  ultimately have "drainSession thirdRateLimited backlogSession
       = (backlogSession\<lparr>messageQueue :=
            [exampleMessage ''3'', exampleMessage ''4'', exampleMessage ''5'',
             exampleMessage ''6'', exampleMessage ''7'']\<rparr>,
          [SendMessage 1 ''919876543211@c.us'' ''hello 1'', Sleep 3000,
           SendMessage 1 ''919876543212@c.us'' ''hello 2'',
           SendMessage 1 ''919876543213@c.us'' ''hello 3'', Sleep 10000])"
    by simp
  with backlog_fields(1,2) q t2 r2 t3 r3 show ?thesis by (intro conjI)
qed


text \<open>
  A disconnect that arrives while the first send of a batch is pending ends the batch
  after that send: six of the seven messages stay queued.
\<close>

lemma drain_interrupted_example:
  "drainRun [([OpDisconnected ''CONFLICT''], Sent), ([], Sent)] (drainCall backlogSession)
     = (backlogSession\<lparr>isReady := False, status := Disconnected,
          messageQueue := map exampleMessage [''2'', ''3'', ''4'', ''5'', ''6'', ''7'']\<rparr>,
        [SendMessage 1 ''919876543211@c.us'' ''hello 1'', Sleep 3000], Done Completed)"
proof -
  have "drainCall backlogSession
      = (backlogSession\<lparr>isProcessingQueue := True,
           messageQueue := map exampleMessage [''2'', ''3'', ''4'', ''5'', ''6'', ''7'']\<rparr>,
         [SendMessage 1 (formatPhoneNumber (number (exampleMessage ''1'')) @ ''@c.us'')
            (message (exampleMessage ''1''))],
         Suspended (AwaitSend (min 5 (length (messageQueue backlogSession))) 0 (exampleMessage ''1'')))"
    by (intro drainCall_first) (simp_all add: backlog_fields)
  then show ?thesis
    by (simp add: drainFrom_stop onDisconnected_def Let_def backlog_fields exampleMessage_def
        formatPhoneNumber_def stripNonDigits_def isDigit_def startsWith_def)
      (simp add: backlogSession_eq linkedSession_eq freshSession_def)
qed

theorem processMessageQueue_guard_and_batch_witness:
  "map_of [(''firm_a'', backlogSession)] ''firm_a'' = Some backlogSession
   \<and> \<not> isProcessingQueue backlogSession \<and> isReady backlogSession
   \<and> length (messageQueue backlogSession) = 7
   \<and> (\<exists>reg1. processMessageQueue alwaysSent ''firm_a'' [(''firm_a'', backlogSession)]
          = (reg1,
             [SendMessage 1 ''919876543211@c.us'' ''hello 1'', Sleep 3000,
              SendMessage 1 ''919876543212@c.us'' ''hello 2'', Sleep 3000,
              SendMessage 1 ''919876543213@c.us'' ''hello 3'', Sleep 3000,
              SendMessage 1 ''919876543214@c.us'' ''hello 4'', Sleep 3000,
              SendMessage 1 ''919876543215@c.us'' ''hello 5'', Sleep 3000])
        \<and> map_of reg1 ''firm_a''
            = Some (backlogSession\<lparr>messageQueue := [exampleMessage ''6'', exampleMessage ''7'']\<rparr>)
        \<and> (\<exists>reg2. processMessageQueue alwaysSent ''firm_a'' reg1
               = (reg2,
                  [SendMessage 1 ''919876543216@c.us'' ''hello 6'', Sleep 3000,
                   SendMessage 1 ''919876543217@c.us'' ''hello 7'', Sleep 3000])
             \<and> map_of reg2 ''firm_a'' = Some (backlogSession\<lparr>messageQueue := []\<rparr>)))
   \<and> map_of [(''firm_a'', backlogSession)] ''firm_b'' = None
   \<and> processMessageQueue alwaysSent ''firm_b'' [(''firm_a'', backlogSession)]
       = ([(''firm_a'', backlogSession)], [])
   \<and> drainCall backlogSession
       = (inFlightSession, [SendMessage 1 ''919876543211@c.us'' ''hello 1''],
          Suspended (AwaitSend 5 0 (exampleMessage ''1'')))
   \<and> inFlightSession
       = backlogSession\<lparr>isProcessingQueue := True,
           messageQueue := map exampleMessage [''2'', ''3'', ''4'', ''5'', ''6'', ''7'']\<rparr>
   \<and> processMessageQueue alwaysSent ''firm_a'' [(''firm_a'', inFlightSession)]
       = ([(''firm_a'', inFlightSession)], [])
   \<and> processMessageQueue alwaysSent ''firm_a''
        [(''firm_a'', applyOps [OpEnqueue (exampleMessage ''8'')] inFlightSession)]
       = ([(''firm_a'', applyOps [OpEnqueue (exampleMessage ''8'')] inFlightSession)], [])
   \<and> messageQueue linkedSession = []
   \<and> processMessageQueue alwaysSent ''firm_a'' [(''firm_a'', linkedSession)]
       = ([(''firm_a'', linkedSession)], [])
   \<and> \<not> isReady (applyOp (OpDisconnected ''CONFLICT'') backlogSession)
   \<and> processMessageQueue alwaysSent ''firm_a''
        [(''firm_a'', applyOp (OpDisconnected ''CONFLICT'') backlogSession)]
       = ([(''firm_a'', applyOp (OpDisconnected ''CONFLICT'') backlogSession)], [])
   \<and> (\<exists>ex. drainAlone alwaysSent 11 (drainCall backlogSession)
          = (backlogSession\<lparr>messageQueue := [exampleMessage ''6'', exampleMessage ''7'']\<rparr>,
             [SendMessage 1 ''919876543211@c.us'' ''hello 1'', Sleep 3000,
              SendMessage 1 ''919876543212@c.us'' ''hello 2'', Sleep 3000,
              SendMessage 1 ''919876543213@c.us'' ''hello 3'', Sleep 3000,
              SendMessage 1 ''919876543214@c.us'' ''hello 4'', Sleep 3000,
              SendMessage 1 ''919876543215@c.us'' ''hello 5'', Sleep 3000],
             Done ex))"
proof -
  let ?reg = "[(''firm_a'', backlogSession)]"
  let ?rest = "map exampleMessage [''2'', ''3'', ''4'', ''5'', ''6'', ''7'']"
  let ?fly = "backlogSession\<lparr>isProcessingQueue := True, messageQueue := ?rest\<rparr>"
  let ?more = "applyOps [OpEnqueue (exampleMessage ''8'')] inFlightSession"
  let ?off = "applyOp (OpDisconnected ''CONFLICT'') backlogSession"
  note I = processMessageQueue_guard_and_batch [where reg = "[(''firm_a'', linkedSession)]"
      and key = "''firm_a''" and send = alwaysSent and send' = alwaysSent and s = backlogSession
      and m = "exampleMessage ''1''" and rest = ?rest and c = 1 and sched = "[]"
      and ?s0.0 = backlogSession and ?s1.0 = ?fly
      and ?es1.0 = "[SendMessage 1 (formatPhoneNumber (number (exampleMessage ''1'')) @ ''@c.us'')
                      (message (exampleMessage ''1''))]"
      and task = "AwaitSend (min 5 (length (messageQueue backlogSession))) 0 (exampleMessage ''1'')"
      and ops = "[]" and reg' = "[(''firm_a'', ?fly)]" and n = 11]
  note J = processMessageQueue_guard_and_batch [where reg = "[(''firm_a'', ?off)]"
      and key = "''firm_a''" and send = alwaysSent and send' = alwaysSent and s = backlogSession
      and m = "exampleMessage ''1''" and rest = ?rest and c = 1 and sched = "[]"
      and ?s0.0 = backlogSession and ?s1.0 = ?fly
      and ?es1.0 = "[SendMessage 1 (formatPhoneNumber (number (exampleMessage ''1'')) @ ''@c.us'')
                      (message (exampleMessage ''1''))]"
      and task = "AwaitSend (min 5 (length (messageQueue backlogSession))) 0 (exampleMessage ''1'')"
      and ops = "[OpEnqueue (exampleMessage ''8'')]"
      and reg' = "[(''firm_a'', applyOps [OpEnqueue (exampleMessage ''8'')] ?fly)]" and n = 11]
  have q1: "messageQueue backlogSession = exampleMessage ''1'' # ?rest"
    by (simp add: backlog_fields)
  from I backlog_fields(1,2,3) q1
  have call: "drainCall backlogSession
      = (?fly, [SendMessage 1 (formatPhoneNumber (number (exampleMessage ''1'')) @ ''@c.us'')
                  (message (exampleMessage ''1''))],
         Suspended (AwaitSend (min 5 (length (messageQueue backlogSession))) 0 (exampleMessage ''1'')))"
    by blast
  then have fly: "inFlightSession = ?fly" by (simp add: inFlightSession_def)
  have call': "drainCall backlogSession
       = (inFlightSession, [SendMessage 1 ''919876543211@c.us'' ''hello 1''],
          Suspended (AwaitSend 5 0 (exampleMessage ''1'')))"
    unfolding fly call
    by (simp add: backlog_fields(4) exampleMessage_def formatPhoneNumber_def stripNonDigits_def
        isDigit_def startsWith_def Let_def)
  from call have run: "drainRun [] (drainCall backlogSession)
      = (?fly, [SendMessage 1 (formatPhoneNumber (number (exampleMessage ''1'')) @ ''@c.us'')
                  (message (exampleMessage ''1''))],
         Suspended (AwaitSend (min 5 (length (messageQueue backlogSession))) 0 (exampleMessage ''1'')))"
    by simp
  have "map_of [(''firm_a'', ?fly)] ''firm_a'' = Some (applyOps [] ?fly)" by simp
  with I run
  have "processMessageQueue alwaysSent ''firm_a'' [(''firm_a'', ?fly)] = ([(''firm_a'', ?fly)], [])"
    by blast
  then have second: "processMessageQueue alwaysSent ''firm_a'' [(''firm_a'', inFlightSession)]
      = ([(''firm_a'', inFlightSession)], [])"
    by (simp only: fly)
  have "map_of [(''firm_a'', applyOps [OpEnqueue (exampleMessage ''8'')] ?fly)] ''firm_a''
      = Some (applyOps [OpEnqueue (exampleMessage ''8'')] ?fly)" by simp
  with J run
  have "processMessageQueue alwaysSent ''firm_a'' [(''firm_a'', applyOps [OpEnqueue (exampleMessage ''8'')] ?fly)]
      = ([(''firm_a'', applyOps [OpEnqueue (exampleMessage ''8'')] ?fly)], [])"
    by blast
  then have later: "processMessageQueue alwaysSent ''firm_a'' [(''firm_a'', ?more)]
      = ([(''firm_a'', ?more)], [])"
    by (simp only: fly)
  have empty: "messageQueue linkedSession = []"
    by (simp add: linkedSession_eq freshSession_def)
  have "map_of [(''firm_a'', linkedSession)] ''firm_a'' = Some linkedSession" by simp
  with I empty
  have idle: "processMessageQueue alwaysSent ''firm_a'' [(''firm_a'', linkedSession)]
      = ([(''firm_a'', linkedSession)], [])"
    by blast
  have off: "\<not> isReady ?off" by (simp add: onDisconnected_def Let_def)
  have "map_of [(''firm_a'', ?off)] ''firm_a'' = Some ?off" by simp
  with J off
  have offline: "processMessageQueue alwaysSent ''firm_a'' [(''firm_a'', ?off)]
      = ([(''firm_a'', ?off)], [])"
    by blast
  note T = processMessageQueue_guard_and_batch [of ?reg "''firm_a''" alwaysSent backlogSession alwaysSent]
  note N = processMessageQueue_guard_and_batch [of ?reg "''firm_b''" alwaysSent backlogSession alwaysSent]
  have dg: "isDigit CHR ''1''" "isDigit CHR ''2''" "isDigit CHR ''3''" "isDigit CHR ''4''"
    "isDigit CHR ''5''" "isDigit CHR ''6''" "isDigit CHR ''7''"
    by (simp_all add: isDigit_def)
  have look: "map_of ?reg ''firm_a'' = Some backlogSession" by simp
  have none: "map_of ?reg ''firm_b'' = None" by simp
  have l7: "length (messageQueue backlogSession) = 7" by (simp add: backlog_fields)
  have nrl: "\<not> rateLimited alwaysSent j backlogSession m" for j m
    by (simp add: rateLimited_def trySend_def backlog_fields alwaysSent_def Let_def)
  have sent: "fst (trySend alwaysSent j backlogSession m) = Sent" for j m
    by (simp add: trySend_def backlog_fields alwaysSent_def Let_def)
  have a1: "attempts alwaysSent 0 backlogSession (take 5 (messageQueue backlogSession))
      = [SendMessage 1 ''919876543211@c.us'' ''hello 1'', Sleep 3000,
         SendMessage 1 ''919876543212@c.us'' ''hello 2'', Sleep 3000,
         SendMessage 1 ''919876543213@c.us'' ''hello 3'', Sleep 3000,
         SendMessage 1 ''919876543214@c.us'' ''hello 4'', Sleep 3000,
         SendMessage 1 ''919876543215@c.us'' ''hello 5'', Sleep 3000]"
    by (simp add: backlog_fields(4) sent exampleMessage_attempt dg)
  have a2: "attempts alwaysSent 0 backlogSession [exampleMessage ''6'', exampleMessage ''7'']
      = [SendMessage 1 ''919876543216@c.us'' ''hello 6'', Sleep 3000,
         SendMessage 1 ''919876543217@c.us'' ''hello 7'', Sleep 3000]"
    by (simp add: sent exampleMessage_attempt dg)
  have d5: "drop 5 (messageQueue backlogSession) = [exampleMessage ''6'', exampleMessage ''7'']"
    by (simp add: backlog_fields(4))
  from T look backlog_fields(1,2) l7 nrl
  have "\<exists>reg1. processMessageQueue alwaysSent ''firm_a'' ?reg
                  = (reg1, attempts alwaysSent 0 backlogSession (take 5 (messageQueue backlogSession)))
            \<and> map_of reg1 ''firm_a''
                = Some (backlogSession\<lparr>messageQueue := drop 5 (messageQueue backlogSession)\<rparr>)
            \<and> length (drop 5 (messageQueue backlogSession)) = 2
            \<and> (\<exists>reg2. processMessageQueue alwaysSent ''firm_a'' reg1
                    = (reg2, attempts alwaysSent 0 backlogSession (drop 5 (messageQueue backlogSession)))
                  \<and> map_of reg2 ''firm_a'' = Some (backlogSession\<lparr>messageQueue := []\<rparr>))"
    by simp
  then obtain reg1 reg2 where
    p1: "processMessageQueue alwaysSent ''firm_a'' ?reg
        = (reg1, attempts alwaysSent 0 backlogSession (take 5 (messageQueue backlogSession)))"
    and m1: "map_of reg1 ''firm_a''
        = Some (backlogSession\<lparr>messageQueue := drop 5 (messageQueue backlogSession)\<rparr>)"
    and p2: "processMessageQueue alwaysSent ''firm_a'' reg1
        = (reg2, attempts alwaysSent 0 backlogSession (drop 5 (messageQueue backlogSession)))"
    and m2: "map_of reg2 ''firm_a'' = Some (backlogSession\<lparr>messageQueue := []\<rparr>)"
    by (elim exE conjE) (rule that, assumption+)
  have two: "\<exists>reg1. processMessageQueue alwaysSent ''firm_a'' ?reg
          = (reg1,
             [SendMessage 1 ''919876543211@c.us'' ''hello 1'', Sleep 3000,
              SendMessage 1 ''919876543212@c.us'' ''hello 2'', Sleep 3000,
              SendMessage 1 ''919876543213@c.us'' ''hello 3'', Sleep 3000,
              SendMessage 1 ''919876543214@c.us'' ''hello 4'', Sleep 3000,
              SendMessage 1 ''919876543215@c.us'' ''hello 5'', Sleep 3000])
        \<and> map_of reg1 ''firm_a''
            = Some (backlogSession\<lparr>messageQueue := [exampleMessage ''6'', exampleMessage ''7'']\<rparr>)
        \<and> (\<exists>reg2. processMessageQueue alwaysSent ''firm_a'' reg1
               = (reg2,
                  [SendMessage 1 ''919876543216@c.us'' ''hello 6'', Sleep 3000,
                   SendMessage 1 ''919876543217@c.us'' ''hello 7'', Sleep 3000])
             \<and> map_of reg2 ''firm_a'' = Some (backlogSession\<lparr>messageQueue := []\<rparr>))"
  proof (rule exI [of _ reg1], intro conjI)
    from p1 show "processMessageQueue alwaysSent ''firm_a'' ?reg
          = (reg1,
             [SendMessage 1 ''919876543211@c.us'' ''hello 1'', Sleep 3000,
              SendMessage 1 ''919876543212@c.us'' ''hello 2'', Sleep 3000,
              SendMessage 1 ''919876543213@c.us'' ''hello 3'', Sleep 3000,
              SendMessage 1 ''919876543214@c.us'' ''hello 4'', Sleep 3000,
              SendMessage 1 ''919876543215@c.us'' ''hello 5'', Sleep 3000])"
      by (simp only: a1)
    from m1 show "map_of reg1 ''firm_a''
        = Some (backlogSession\<lparr>messageQueue := [exampleMessage ''6'', exampleMessage ''7'']\<rparr>)"
      by (simp only: d5)
    from p2 have "processMessageQueue alwaysSent ''firm_a'' reg1
               = (reg2,
                  [SendMessage 1 ''919876543216@c.us'' ''hello 6'', Sleep 3000,
                   SendMessage 1 ''919876543217@c.us'' ''hello 7'', Sleep 3000])"
      by (simp only: d5 a2)
    with m2 show "\<exists>reg2. processMessageQueue alwaysSent ''firm_a'' reg1
               = (reg2,
                  [SendMessage 1 ''919876543216@c.us'' ''hello 6'', Sleep 3000,
                   SendMessage 1 ''919876543217@c.us'' ''hello 7'', Sleep 3000])
             \<and> map_of reg2 ''firm_a'' = Some (backlogSession\<lparr>messageQueue := []\<rparr>)"
      by (intro exI [of _ reg2] conjI)
  qed
  from N none have nb: "processMessageQueue alwaysSent ''firm_b'' ?reg = (?reg, [])" by blast
  have nr5: "\<forall>j < min 5 (length (messageQueue backlogSession)).
      \<not> rateLimited alwaysSent j backlogSession (messageQueue backlogSession ! j)"
    by (simp add: nrl)
  have ne: "messageQueue backlogSession \<noteq> []" by (simp add: backlog_fields)
  from drainSession_batch [OF backlog_fields(1) ne backlog_fields(2) nr5]
  have ds: "drainSession alwaysSent backlogSession
      = (backlogSession\<lparr>messageQueue := [exampleMessage ''6'', exampleMessage ''7'']\<rparr>,
         [SendMessage 1 ''919876543211@c.us'' ''hello 1'', Sleep 3000,
          SendMessage 1 ''919876543212@c.us'' ''hello 2'', Sleep 3000,
          SendMessage 1 ''919876543213@c.us'' ''hello 3'', Sleep 3000,
          SendMessage 1 ''919876543214@c.us'' ''hello 4'', Sleep 3000,
          SendMessage 1 ''919876543215@c.us'' ''hello 5'', Sleep 3000])"
    by (simp only: a1 d5)
  from I have "\<exists>ex. drainAlone alwaysSent 11 (drainCall backlogSession)
      = (fst (drainSession alwaysSent backlogSession), snd (drainSession alwaysSent backlogSession),
         Done ex)"
    by simp
  then have alone: "\<exists>ex. drainAlone alwaysSent 11 (drainCall backlogSession)
          = (backlogSession\<lparr>messageQueue := [exampleMessage ''6'', exampleMessage ''7'']\<rparr>,
             [SendMessage 1 ''919876543211@c.us'' ''hello 1'', Sleep 3000,
              SendMessage 1 ''919876543212@c.us'' ''hello 2'', Sleep 3000,
              SendMessage 1 ''919876543213@c.us'' ''hello 3'', Sleep 3000,
              SendMessage 1 ''919876543214@c.us'' ''hello 4'', Sleep 3000,
              SendMessage 1 ''919876543215@c.us'' ''hello 5'', Sleep 3000],
             Done ex)"
    by (simp only: ds fst_conv snd_conv)
  from fly have fly': "inFlightSession
       = backlogSession\<lparr>isProcessingQueue := True,
           messageQueue := map exampleMessage [''2'', ''3'', ''4'', ''5'', ''6'', ''7'']\<rparr>" .
  from look backlog_fields(1,2) l7 two none nb call' fly' second later empty idle off offline alone
  show ?thesis by (intro conjI)
qed

section \<open>Which errors count as rate limiting\<close>

lemma startsWith_iff: "startsWith s p \<longleftrightarrow> (\<exists>b. s = p @ b)"
proof
  assume "startsWith s p"
  then have "take (length p) s = p" by (simp add: startsWith_def)
  then have "s = p @ drop (length p) s" by (metis append_take_drop_id)
  then show "\<exists>b. s = p @ b" ..
next
  assume "\<exists>b. s = p @ b"
  then show "startsWith s p" by (auto simp add: startsWith_def)
qed

lemma includesStr_iff: "includesStr s p \<longleftrightarrow> (\<exists>a b. s = a @ p @ b)"
proof (induction s)
  case Nil
  then show ?case by simp
next
  case (Cons c cs)
  show ?case
  proof
    assume "includesStr (c # cs) p"
    then consider "startsWith (c # cs) p" | "includesStr cs p" by auto
    then show "\<exists>a b. c # cs = a @ p @ b"
    proof cases
      case 1
      then obtain b where "c # cs = p @ b" by (auto simp add: startsWith_iff)
      then have "c # cs = [] @ p @ b" by simp
      then show ?thesis by blast
    next
      case 2
      with Cons.IH obtain a b where "cs = a @ p @ b" by blast
      then have "c # cs = (c # a) @ p @ b" by simp
      then show ?thesis by blast
    qed
  next
    assume "\<exists>a b. c # cs = a @ p @ b"
    then obtain a b where eq: "c # cs = a @ p @ b" by blast
    show "includesStr (c # cs) p"
    proof (cases a)
      case Nil
      with eq have "startsWith (c # cs) p" by (auto simp add: startsWith_iff)
      then show ?thesis by simp
    next
      case (Cons x a')
      with eq have "cs = a' @ p @ b" by simp
      with Cons.IH have "includesStr cs p" by blast
      then show ?thesis by simp
    qed
  qed
qed


lemma isRateLimit_iff:
  "isRateLimit msg \<longleftrightarrow> (\<exists>a b. msg = a @ ''rate'' @ b) \<or> (\<exists>a b. msg = a @ ''limit'' @ b)"
  by (simp add: isRateLimit_def includesStr_iff)

end
